theory Spec2Isabelle
  imports Main
begin

text \<open>
  A shallow embedding of the Sudoku solver of \<^verbatim>\<open>index.ts\<close>: the data model, the candidate
  engine, the backtracking solver, the validator, the parser and the printer as functions of
  HOL, each followed by what is proved about it. Boards are values at first; the last part
  runs the solver on a store of row objects, to speak about what it mutates.
\<close>

section \<open>Data model of \<^verbatim>\<open>index.ts\<close>\<close>

text \<open>
  \<^verbatim>\<open>type Cell = Numbers | null\<close>: \<open>None\<close> is \<^verbatim>\<open>null\<close>, \<open>Some n\<close> the JavaScript number
  \<open>n\<close>. The static type \<^verbatim>\<open>Numbers\<close> (1 to 9) is not enforced at run time, so the model keeps
  every natural number a cell can hold.
\<close>

type_synonym cell = "nat option"

text \<open>
  \<^verbatim>\<open>Row\<close> and \<^verbatim>\<open>Sudoku\<close> are TypeScript tuples of exactly nine components.
\<close>

datatype 'a tuple9 = Tuple9 'a 'a 'a 'a 'a 'a 'a 'a 'a

type_synonym row = "cell tuple9"
type_synonym sudoku = "row tuple9"

text \<open>\<^verbatim>\<open>type Coord = [Domain, Domain]\<close>, with \<^verbatim>\<open>Domain\<close> the indices 0 to 8.\<close>

type_synonym coord = "nat \<times> nat"

text \<open>The spread \<^verbatim>\<open>[...t]\<close> of a tuple: its components as an array.\<close>

fun elems :: "'a tuple9 \<Rightarrow> 'a list" where
  "elems (Tuple9 a0 a1 a2 a3 a4 a5 a6 a7 a8) = [a0, a1, a2, a3, a4, a5, a6, a7, a8]"

text \<open>Indexing \<^verbatim>\<open>t[i]\<close> for an index of type \<^verbatim>\<open>Domain\<close>.\<close>

definition nth9 :: "'a tuple9 \<Rightarrow> nat \<Rightarrow> 'a" where
  "nth9 t i = elems t ! i"

text \<open>\<^verbatim>\<open>t.map((x) => f(x))\<close> and \<^verbatim>\<open>t.map((x, index) => f(x, index))\<close> on a tuple.\<close>

fun map9 :: "('a \<Rightarrow> 'b) \<Rightarrow> 'a tuple9 \<Rightarrow> 'b tuple9" where
  "map9 f (Tuple9 a0 a1 a2 a3 a4 a5 a6 a7 a8) =
     Tuple9 (f a0) (f a1) (f a2) (f a3) (f a4) (f a5) (f a6) (f a7) (f a8)"

fun mapi9 :: "('a \<Rightarrow> nat \<Rightarrow> 'b) \<Rightarrow> 'a tuple9 \<Rightarrow> 'b tuple9" where
  "mapi9 f (Tuple9 a0 a1 a2 a3 a4 a5 a6 a7 a8) =
     Tuple9 (f a0 0) (f a1 1) (f a2 2) (f a3 3) (f a4 4) (f a5 5) (f a6 6) (f a7 7) (f a8 8)"

text \<open>
  The assignment \<^verbatim>\<open>t[i] = v\<close> for an index of type \<^verbatim>\<open>Domain\<close>, as the updated tuple.
\<close>

fun upd9 :: "'a tuple9 \<Rightarrow> nat \<Rightarrow> 'a \<Rightarrow> 'a tuple9" where
  "upd9 (Tuple9 a0 a1 a2 a3 a4 a5 a6 a7 a8) i v =
     (if i = 0 then Tuple9 v a1 a2 a3 a4 a5 a6 a7 a8
      else if i = 1 then Tuple9 a0 v a2 a3 a4 a5 a6 a7 a8
      else if i = 2 then Tuple9 a0 a1 v a3 a4 a5 a6 a7 a8
      else if i = 3 then Tuple9 a0 a1 a2 v a4 a5 a6 a7 a8
      else if i = 4 then Tuple9 a0 a1 a2 a3 v a5 a6 a7 a8
      else if i = 5 then Tuple9 a0 a1 a2 a3 a4 v a6 a7 a8
      else if i = 6 then Tuple9 a0 a1 a2 a3 a4 a5 v a7 a8
      else if i = 7 then Tuple9 a0 a1 a2 a3 a4 a5 a6 v a8
      else if i = 8 then Tuple9 a0 a1 a2 a3 a4 a5 a6 a7 v
      else Tuple9 a0 a1 a2 a3 a4 a5 a6 a7 a8)"

text \<open>
  The cast \<^verbatim>\<open>rows as Sudoku\<close> of an array to a tuple: no run-time effect; it is only
  applied to arrays whose length has been checked to be 9.
\<close>

definition tuple9_of :: "'a list \<Rightarrow> 'a tuple9" where
  "tuple9_of xs =
     Tuple9 (xs ! 0) (xs ! 1) (xs ! 2) (xs ! 3) (xs ! 4) (xs ! 5) (xs ! 6) (xs ! 7) (xs ! 8)"

text \<open>\<^verbatim>\<open>board[i][j]\<close>.\<close>

definition cellAt :: "sudoku \<Rightarrow> nat \<Rightarrow> nat \<Rightarrow> cell" where
  "cellAt brd i j = nth9 (nth9 brd i) j"

text \<open>\<^verbatim>\<open>type Game = { solved: boolean; board: Sudoku }\<close>\<close>

record game =
  solved :: bool
  board :: sudoku

subsection \<open>JavaScript sets\<close>

text \<open>
  A \<^verbatim>\<open>Set\<close> iterates in insertion order and holds no value twice: a list without
  repetition, in insertion order. \<^verbatim>\<open>s.has(x)\<close> is \<open>x \<in> set s\<close>, \<^verbatim>\<open>s.size\<close> is
  \<open>length s\<close>, \<^verbatim>\<open>[...s]\<close> is the list itself.
\<close>

type_synonym 'a jsset = "'a list"

text \<open>\<^verbatim>\<open>s.add(x)\<close> and \<^verbatim>\<open>new Set(xs)\<close>.\<close>

definition set_add :: "'a jsset \<Rightarrow> 'a \<Rightarrow> 'a jsset" where
  "set_add s x = (if x \<in> set s then s else s @ [x])"

definition new_Set :: "'a list \<Rightarrow> 'a jsset" where
  "new_Set xs = foldl set_add [] xs"

section \<open>The candidate engine\<close>

text \<open>\<^verbatim>\<open>if (item)\<close> holds for a number other than 0, and neither for 0 nor for \<^verbatim>\<open>null\<close>.\<close>

definition compressContents :: "cell list \<Rightarrow> nat jsset" where
  "compressContents initialContents =
     foldl (\<lambda>contents item.
              case item of
                None \<Rightarrow> contents
              | Some n \<Rightarrow> if n \<noteq> 0 then set_add contents n else contents)
           [] initialContents"

text \<open>The three region accessors, and the transposition the column accessor uses.\<close>

definition getRowContents :: "sudoku \<Rightarrow> coord \<Rightarrow> cell list" where
  "getRowContents brd coord = elems (nth9 brd (fst coord))"

definition transpose_sudoku :: "sudoku \<Rightarrow> sudoku" where
  "transpose_sudoku matrix =
     mapi9 (\<lambda>_ colIndex. map9 (\<lambda>row. nth9 row colIndex) matrix) (nth9 matrix 0)"

definition getColumnContents :: "sudoku \<Rightarrow> coord \<Rightarrow> cell list" where
  "getColumnContents brd coord =
     (let transposed = transpose_sudoku brd in elems (nth9 transposed (snd coord)))"

definition getSubGridContents :: "sudoku \<Rightarrow> coord \<Rightarrow> cell list" where
  "getSubGridContents brd coord =
     (let subCoord = (fst coord div 3, snd coord div 3) in
      map (\<lambda>i. let subGridOffset = (i div 3, i mod 3);
                   pos = (fst subCoord * 3 + fst subGridOffset,
                          snd subCoord * 3 + snd subGridOffset)
               in nth9 (nth9 brd (fst pos)) (snd pos))
          [0..<9])"

text \<open>Both set operations filter the elements of \<open>a\<close> in their order.\<close>

definition setDifference :: "'a jsset \<Rightarrow> 'a jsset \<Rightarrow> 'a jsset" where
  "setDifference a b = filter (\<lambda>x. x \<notin> set b) a"

definition setIntersection :: "'a jsset \<Rightarrow> 'a jsset \<Rightarrow> 'a jsset" where
  "setIntersection a b = filter (\<lambda>x. x \<in> set b) a"

definition ALL_NUMBERS :: "nat jsset" where
  "ALL_NUMBERS = [1, 2, 3, 4, 5, 6, 7, 8, 9]"

definition getOptionsForCoord :: "sudoku \<Rightarrow> coord \<Rightarrow> nat list" where
  "getOptionsForCoord brd coord =
     (let row = getRowContents brd coord;
          col = getColumnContents brd coord;
          sub = getSubGridContents brd coord;
          contents = compressContents (row @ col @ sub);
          options = setDifference ALL_NUMBERS contents
      in options)"

text \<open>
  The two nested iterations over \<^verbatim>\<open>[...Array(9).keys()]\<close> visit the coordinates row by row and
  return at the first \<^verbatim>\<open>null\<close> cell.
\<close>

definition getNextEmptyCoord :: "sudoku \<Rightarrow> coord option" where
  "getNextEmptyCoord brd =
     find (\<lambda>(i, j). nth9 (nth9 brd i) j = None) (List.product [0..<9] [0..<9])"

section \<open>The solver\<close>

text \<open>
  \<^verbatim>\<open>const newBoard = structuredClone(game.board); newBoard[next[0]][next[1]] = option\<close>:
  the deep copy with one cell assigned.
\<close>

definition setCell :: "sudoku \<Rightarrow> coord \<Rightarrow> nat \<Rightarrow> sudoku" where
  "setCell brd next option =
     upd9 brd (fst next) (upd9 (nth9 brd (fst next)) (snd next) (Some option))"

text \<open>
  The loop \<^verbatim>\<open>for (const option of options) { ...; if (finalGame.solved) return finalGame }\<close>
  followed by \<^verbatim>\<open>return game\<close>; \<open>attempt option\<close> is the loop body's \<^verbatim>\<open>finalGame\<close>.
\<close>

fun forOptions :: "(nat \<Rightarrow> game) \<Rightarrow> nat list \<Rightarrow> game \<Rightarrow> game" where
  "forOptions attempt [] game0 = game0"
| "forOptions attempt (option # options) game0 =
     (let finalGame = attempt option in
      if solved finalGame then finalGame else forOptions attempt options game0)"

lemma forOptions_cong [fundef_cong]:
  assumes "options = options'" "game0 = game0'"
    and "\<And>option. option \<in> set options' \<Longrightarrow> attempt option = attempt' option"
  shows "forOptions attempt options game0 = forOptions attempt' options' game0'"
  using assms by (induction options' arbitrary: options) (auto simp: Let_def)

text \<open>The number of \<^verbatim>\<open>null\<close> cells of a board.\<close>

definition emptyCount :: "sudoku \<Rightarrow> nat" where
  "emptyCount b = length (filter (\<lambda>(i, j). cellAt b i j = None) (List.product [0..<9] [0..<9]))"

section \<open>Basic facts about tuples and the region accessors\<close>

lemma less9_cases:
  "i < 9 \<Longrightarrow> i = 0 \<or> i = 1 \<or> i = 2 \<or> i = 3 \<or> i = 4 \<or> i = 5 \<or> i = 6 \<or> i = 7 \<or> i = (8::nat)"
  by arith

lemma nth9_Tuple9:
  "nth9 (Tuple9 a0 a1 a2 a3 a4 a5 a6 a7 a8) 0 = a0"
  "nth9 (Tuple9 a0 a1 a2 a3 a4 a5 a6 a7 a8) 1 = a1"
  "nth9 (Tuple9 a0 a1 a2 a3 a4 a5 a6 a7 a8) (Suc 0) = a1"
  "nth9 (Tuple9 a0 a1 a2 a3 a4 a5 a6 a7 a8) 2 = a2"
  "nth9 (Tuple9 a0 a1 a2 a3 a4 a5 a6 a7 a8) 3 = a3"
  "nth9 (Tuple9 a0 a1 a2 a3 a4 a5 a6 a7 a8) 4 = a4"
  "nth9 (Tuple9 a0 a1 a2 a3 a4 a5 a6 a7 a8) 5 = a5"
  "nth9 (Tuple9 a0 a1 a2 a3 a4 a5 a6 a7 a8) 6 = a6"
  "nth9 (Tuple9 a0 a1 a2 a3 a4 a5 a6 a7 a8) 7 = a7"
  "nth9 (Tuple9 a0 a1 a2 a3 a4 a5 a6 a7 a8) 8 = a8"
  by (simp_all add: nth9_def)

lemma length_elems: "length (elems t) = 9"
  by (cases t) simp

lemma upt_0_9: "[0..<9] = [0, 1, 2, 3, 4, 5, 6, 7, 8]"
  by (simp add: upt_rec)

lemma elems_nth9: "elems t = map (nth9 t) [0..<9]"
  by (cases t) (simp add: upt_0_9 nth9_Tuple9)

lemma nth9_upd9_same: "i < 9 \<Longrightarrow> nth9 (upd9 t i v) i = v"
  by (cases t, drule less9_cases) (elim disjE; simp add: nth9_Tuple9)

lemma nth9_upd9_other: "i \<noteq> j \<Longrightarrow> j < 9 \<Longrightarrow> nth9 (upd9 t i v) j = nth9 t j"
  by (cases t, drule less9_cases) (elim disjE; simp add: nth9_Tuple9)

lemma nth9_map9: "i < 9 \<Longrightarrow> nth9 (map9 f t) i = f (nth9 t i)"
  by (cases t, drule less9_cases) (elim disjE; simp add: nth9_Tuple9)

lemma nth9_mapi9: "i < 9 \<Longrightarrow> nth9 (mapi9 f t) i = f (nth9 t i) i"
  by (cases t, drule less9_cases) (elim disjE; simp add: nth9_Tuple9)

lemma cellAt_setCell:
  "i < 9 \<Longrightarrow> j < 9 \<Longrightarrow> i' < 9 \<Longrightarrow> j' < 9 \<Longrightarrow>
   cellAt (setCell b (i, j) v) i' j' = (if i = i' \<and> j = j' then Some v else cellAt b i' j')"
  by (cases "i = i'"; cases "j = j'"; simp add: cellAt_def setCell_def nth9_upd9_same nth9_upd9_other)

lemma cellAt_transpose: "i < 9 \<Longrightarrow> j < 9 \<Longrightarrow> cellAt (transpose_sudoku b) j i = cellAt b i j"
  by (simp add: cellAt_def transpose_sudoku_def nth9_mapi9 nth9_map9)

lemma getRowContents_eq: "getRowContents b (i, j) = map (\<lambda>c. cellAt b i c) [0..<9]"
  by (simp add: getRowContents_def elems_nth9 cellAt_def)

lemma getColumnContents_eq: "j < 9 \<Longrightarrow> getColumnContents b (i, j) = map (\<lambda>r. cellAt b r j) [0..<9]"
proof -
  assume j: "j < 9"
  have "elems (nth9 (transpose_sudoku b) j) = map (\<lambda>r. cellAt (transpose_sudoku b) j r) [0..<9]"
    by (simp add: elems_nth9 cellAt_def)
  also have "\<dots> = map (\<lambda>r. cellAt b r j) [0..<9]"
    using j by (intro map_cong refl) (simp add: cellAt_transpose)
  finally show ?thesis by (simp add: getColumnContents_def)
qed

lemma getSubGridContents_eq:
  "getSubGridContents b (i, j) =
     map (\<lambda>k. cellAt b (i div 3 * 3 + k div 3) (j div 3 * 3 + k mod 3)) [0..<9]"
  by (simp add: getSubGridContents_def cellAt_def Let_def)

section \<open>The first empty cell, and the termination of the solver\<close>

lemma allCoords_nth:
  "n < 81 \<Longrightarrow> List.product [0..<9] [0..<9] ! n = (n div 9, n mod 9)"
  by (simp add: product_nth del: upt_Suc)

lemma allCoords_mem: "(i, j) \<in> set (List.product [0..<9] [0..<9]) \<longleftrightarrow> i < 9 \<and> j < 9"
  by (simp del: upt_Suc)

lemma distinct_allCoords: "distinct (List.product [0..<9] [0..<9])"
  by (simp add: distinct_product del: upt_Suc)

lemma getNextEmptyCoord_None:
  "getNextEmptyCoord b = None \<longleftrightarrow> (\<forall>i<9. \<forall>j<9. cellAt b i j \<noteq> None)"
  by (auto simp: getNextEmptyCoord_def find_None_iff cellAt_def simp del: upt_Suc)

lemma getNextEmptyCoord_Some:
  assumes "getNextEmptyCoord b = Some (i, j)"
  shows "i < 9" "j < 9" "cellAt b i j = None"
    and "\<And>i' j'. i' < 9 \<Longrightarrow> j' < 9 \<Longrightarrow> cellAt b i' j' = None \<Longrightarrow> i < i' \<or> (i = i' \<and> j \<le> j')"
proof -
  let ?P = "\<lambda>(i, j). nth9 (nth9 b i) j = None"
  let ?cs = "List.product [0..<9] [0..<9]"
  have "find ?P ?cs = Some (i, j)"
    using assms unfolding getNextEmptyCoord_def .
  then have "\<exists>n. n < length ?cs \<and> ?P (?cs ! n) \<and> (i, j) = ?cs ! n \<and> (\<forall>m<n. \<not> ?P (?cs ! m))"
    by (simp only: find_Some_iff)
  then obtain n where
    all: "n < length ?cs \<and> ?P (?cs ! n) \<and> (i, j) = ?cs ! n \<and> (\<forall>m<n. \<not> ?P (?cs ! m))" ..
  from all have n1: "n < length ?cs" by (rule conjunct1)
  from all have n2: "?P (?cs ! n)" by (rule conjunct1[OF conjunct2])
  from all have n3: "(i, j) = ?cs ! n" by (rule conjunct1[OF conjunct2[OF conjunct2]])
  from all have least: "\<forall>m<n. \<not> ?P (?cs ! m)" by (rule conjunct2[OF conjunct2[OF conjunct2]])
  from n1 have n81: "n < 81" by simp
  with n3 have ij: "i = n div 9" "j = n mod 9" by (simp_all add: allCoords_nth)
  have nij: "n = i * 9 + j" unfolding ij by simp
  show "i < 9" "j < 9" using n81 ij by simp_all
  show "cellAt b i j = None" using n2 n81 by (simp add: allCoords_nth ij cellAt_def)
  fix i' j' :: nat assume b: "i' < 9" "j' < 9" and e: "cellAt b i' j' = None"
  let ?m = "i' * 9 + j'"
  have m81: "?m < 81" using b by arith
  have Pm: "?P (?cs ! ?m)" using b e m81 by (simp add: allCoords_nth cellAt_def)
  have "\<not> ?m < n"
  proof
    assume lt: "?m < n"
    have "\<not> ?P (?cs ! ?m)" by (rule least[rule_format, OF lt])
    then show False using Pm by (rule notE)
  qed
  then have "i * 9 + j \<le> i' * 9 + j'" unfolding nij by simp
  moreover have "j < 9" unfolding ij by simp
  ultimately show "i < i' \<or> (i = i' \<and> j \<le> j')" using b(2) by arith
qed

lemma emptyCount_card:
  "emptyCount b = card {(i, j). i < 9 \<and> j < 9 \<and> cellAt b i j = None}"
proof -
  have "{x. case x of (i, j) \<Rightarrow> cellAt b i j = None} \<inter> set (List.product [0..<9] [0..<9])
      = {(i, j). i < 9 \<and> j < 9 \<and> cellAt b i j = None}"
    by (auto simp del: upt_Suc)
  then show ?thesis
    unfolding emptyCount_def by (simp add: distinct_length_filter distinct_allCoords del: upt_Suc)
qed

lemma emptyCount_le: "emptyCount b \<le> 81"
proof -
  have "emptyCount b \<le> length (List.product [0..<9] [0..<9])"
    unfolding emptyCount_def by (rule length_filter_le)
  then show ?thesis by simp
qed

lemma emptyCount_setCell:
  assumes "i < 9" "j < 9" "cellAt b i j = None"
  shows "Suc (emptyCount (setCell b (i, j) v)) = emptyCount b"
proof -
  let ?E = "\<lambda>b. {(i, j). i < 9 \<and> j < 9 \<and> cellAt b i j = None}"
  have fin: "finite (?E (setCell b (i, j) v))"
    by (rule finite_subset[of _ "{..<9} \<times> {..<9}"]) auto
  have "?E b = insert (i, j) (?E (setCell b (i, j) v))"
    using assms by (auto simp: cellAt_setCell split: if_splits)
  moreover have "(i, j) \<notin> ?E (setCell b (i, j) v)"
    using assms by (simp add: cellAt_setCell)
  ultimately show ?thesis
    using fin by (simp add: emptyCount_card)
qed

text \<open>
  \<^verbatim>\<open>solve\<close>, with boards as values; the measure of its termination is the number of empty
  cells.
\<close>

function solve :: "game \<Rightarrow> game" where
  "solve game =
     (case getNextEmptyCoord (board game) of
        None \<Rightarrow> \<lparr>solved = True, board = board game\<rparr>
      | Some next \<Rightarrow>
          (let options = getOptionsForCoord (board game) next in
           if length options = 0 then game
           else forOptions
                  (\<lambda>option.
                     let newBoard = setCell (board game) next option;
                         newGame = \<lparr>solved = False, board = newBoard\<rparr>
                     in solve newGame)
                  options game))"
  by pat_completeness auto
termination
proof (relation "measure (\<lambda>game. emptyCount (board game))")
  show "wf (measure (\<lambda>game. emptyCount (board game)))" by simp
next
  fix game :: game and nxt options option newBoard newGame
  assume nx: "getNextEmptyCoord (board game) = Some nxt"
    and nb: "newBoard = setCell (board game) nxt option"
    and ng: "newGame = \<lparr>solved = False, board = newBoard\<rparr>"
  obtain i j where ij: "nxt = (i, j)" by (cases nxt)
  from nx ij have nx': "getNextEmptyCoord (board game) = Some (i, j)" by simp
  have "i < 9" "j < 9" "cellAt (board game) i j = None"
    by (rule getNextEmptyCoord_Some(1)[OF nx'], rule getNextEmptyCoord_Some(2)[OF nx'],
        rule getNextEmptyCoord_Some(3)[OF nx'])
  then have "Suc (emptyCount (setCell (board game) (i, j) option)) = emptyCount (board game)"
    by (rule emptyCount_setCell)
  then have "emptyCount (board newGame) < emptyCount (board game)"
    unfolding ng nb ij by simp
  then show "(newGame, game) \<in> measure (\<lambda>game. emptyCount (board game))"
    by simp
qed

declare solve.simps [simp del]

section \<open>What the region accessors and the candidate engine compute\<close>

lemma set_set_add: "set (set_add s x) = insert x (set s)"
  by (auto simp: set_add_def)

lemma distinct_set_add: "distinct s \<Longrightarrow> distinct (set_add s x)"
  by (simp add: set_add_def)

lemma set_new_Set_aux: "set (foldl set_add acc xs) = set acc \<union> set xs"
  by (induction xs arbitrary: acc) (auto simp: set_set_add)

lemma set_new_Set: "set (new_Set xs) = set xs"
  by (simp add: new_Set_def set_new_Set_aux)

lemma set_compress_aux:
  "set (foldl (\<lambda>contents item. case item of None \<Rightarrow> contents
                 | Some n \<Rightarrow> if n \<noteq> 0 then set_add contents n else contents) acc xs)
   = set acc \<union> {n. n \<noteq> 0 \<and> Some n \<in> set xs}"
proof (induction xs arbitrary: acc)
  case Nil
  show ?case by simp
next
  case (Cons x xs)
  show ?case
  proof (cases x)
    case None
    then show ?thesis by (simp add: Cons.IH)
  next
    case (Some n)
    then show ?thesis by (auto simp: Cons.IH set_set_add)
  qed
qed

lemma set_compressContents: "set (compressContents xs) = {n. n \<noteq> 0 \<and> Some n \<in> set xs}"
  by (simp add: compressContents_def set_compress_aux)

lemma set_getRowContents: "set (getRowContents b (i, j)) = {cellAt b i c |c. c < 9}"
  by (auto simp: getRowContents_eq simp del: upt_Suc)

lemma set_getColumnContents: "j < 9 \<Longrightarrow> set (getColumnContents b (i, j)) = {cellAt b r j |r. r < 9}"
  by (auto simp: getColumnContents_eq simp del: upt_Suc)

lemma subgrid_index:
  assumes "r < 9" "c < 9" "r div 3 = i div 3" "c div 3 = j div 3"
  shows "\<exists>k<9. r = i div 3 * 3 + k div 3 \<and> c = j div 3 * 3 + k mod (3::nat)"
proof (intro exI conjI)
  let ?k = "r mod 3 * 3 + c mod 3"
  have "r mod 3 < 3" "c mod 3 < 3" by simp_all
  then show "?k < 9" by arith
  have kd: "?k div 3 = r mod 3" by simp
  have km: "?k mod 3 = c mod 3" by simp
  have "r = r div 3 * 3 + r mod 3" by simp
  then show "r = i div 3 * 3 + ?k div 3" unfolding kd assms(3) .
  have "c = c div 3 * 3 + c mod 3" by simp
  then show "c = j div 3 * 3 + ?k mod 3" unfolding km assms(4) .
qed

lemma subgrid_index_bounds:
  assumes "i < 9" "j < 9" "k < (9::nat)"
  shows "i div 3 * 3 + k div 3 < 9" "j div 3 * 3 + k mod 3 < 9"
    "(i div 3 * 3 + k div 3) div 3 = i div 3" "(j div 3 * 3 + k mod 3) div 3 = j div 3"
proof -
  have a: "i div 3 < 3" "j div 3 < 3" "k div 3 < 3" "k mod 3 < 3" using assms by simp_all
  show "i div 3 * 3 + k div 3 < 9" using a by arith
  show "j div 3 * 3 + k mod 3 < 9" using a by arith
  show "(i div 3 * 3 + k div 3) div 3 = i div 3" using a(3) by simp
  show "(j div 3 * 3 + k mod 3) div 3 = j div 3" by simp
qed

lemma set_getSubGridContents:
  assumes "i < 9" "j < 9"
  shows "set (getSubGridContents b (i, j)) =
         {cellAt b r c |r c. r < 9 \<and> c < 9 \<and> r div 3 = i div 3 \<and> c div 3 = j div 3}"
    (is "?L = ?R")
proof (intro set_eqI iffI)
  fix x assume "x \<in> ?L"
  then obtain k where k: "k < 9" "x = cellAt b (i div 3 * 3 + k div 3) (j div 3 * 3 + k mod 3)"
    unfolding getSubGridContents_eq by (auto simp del: upt_Suc)
  from subgrid_index_bounds[OF assms k(1)] k(2) show "x \<in> ?R" by blast
next
  fix x assume "x \<in> ?R"
  then obtain r c where rc: "r < 9" "c < 9" "r div 3 = i div 3" "c div 3 = j div 3" "x = cellAt b r c"
    by blast
  from subgrid_index[OF rc(1-4)] obtain k where
    "k < 9" "r = i div 3 * 3 + k div 3" "c = j div 3 * 3 + k mod 3" by blast
  with rc(5) show "x \<in> ?L"
    unfolding getSubGridContents_eq by (auto simp del: upt_Suc)
qed

text \<open>
  Example boards are written as rows of digits, with 0 for an empty cell. The first one is a
  puzzle with 30 given digits.
\<close>

definition rowOfDigits :: "nat list \<Rightarrow> row" where
  "rowOfDigits ds = tuple9_of (map (\<lambda>d. if d = 0 then None else Some d) ds)"

definition boardOfDigits :: "nat list list \<Rightarrow> sudoku" where
  "boardOfDigits rows = tuple9_of (map rowOfDigits rows)"

definition puzzle :: sudoku where
  "puzzle = boardOfDigits
     [[5, 3, 0, 0, 7, 0, 0, 0, 0],
      [6, 0, 0, 1, 9, 5, 0, 0, 0],
      [0, 9, 8, 0, 0, 0, 0, 6, 0],
      [8, 0, 0, 0, 6, 0, 0, 0, 3],
      [4, 0, 0, 8, 0, 3, 0, 0, 1],
      [7, 0, 0, 0, 2, 0, 0, 0, 6],
      [0, 6, 0, 0, 0, 0, 2, 8, 0],
      [0, 0, 0, 4, 1, 9, 0, 0, 5],
      [0, 0, 0, 0, 8, 0, 0, 7, 9]]"

lemma in_set_getSubGridContents:
  assumes "i < 9" "j < 9"
  shows "x \<in> set (getSubGridContents b (i, j)) \<longleftrightarrow>
         (\<exists>r<9. \<exists>c<9. r div 3 = i div 3 \<and> c div 3 = j div 3 \<and> cellAt b r c = x)"
  unfolding set_getSubGridContents[OF assms] by auto

lemma in_set_getRowContents:
  "x \<in> set (getRowContents b (i, j)) \<longleftrightarrow> (\<exists>c<9. cellAt b i c = x)"
  unfolding set_getRowContents by auto

lemma in_set_getColumnContents:
  "j < 9 \<Longrightarrow> x \<in> set (getColumnContents b (i, j)) \<longleftrightarrow> (\<exists>r<9. cellAt b r j = x)"
  unfolding set_getColumnContents by auto

lemma ALL_NUMBERS_nonzero: "d \<in> set ALL_NUMBERS \<Longrightarrow> d \<noteq> 0"
  by (auto simp: ALL_NUMBERS_def)

lemma set_ALL_NUMBERS: "set ALL_NUMBERS = {d. 1 \<le> d \<and> d \<le> 9}"
  unfolding ALL_NUMBERS_def by auto

lemma set_getOptionsForCoord:
  assumes "i < 9" "j < 9"
  shows "set (getOptionsForCoord b (i, j)) =
         {d. 1 \<le> d \<and> d \<le> 9 \<and> (\<forall>c<9. cellAt b i c \<noteq> Some d) \<and> (\<forall>r<9. cellAt b r j \<noteq> Some d)
              \<and> (\<forall>r<9. \<forall>c<9. r div 3 = i div 3 \<and> c div 3 = j div 3 \<longrightarrow> cellAt b r c \<noteq> Some d)}"
    (is "?L = ?R")
proof -
  let ?row = "getRowContents b (i, j)" and ?col = "getColumnContents b (i, j)"
  let ?sub = "getSubGridContents b (i, j)"
  have "?L = {d \<in> set ALL_NUMBERS. d \<notin> set (compressContents (?row @ ?col @ ?sub))}"
    unfolding getOptionsForCoord_def Let_def setDifference_def by simp
  also have "\<dots> = {d \<in> set ALL_NUMBERS. Some d \<notin> set ?row \<and> Some d \<notin> set ?col \<and> Some d \<notin> set ?sub}"
    using ALL_NUMBERS_nonzero by (auto simp: set_compressContents)
  finally have L: "?L = {d \<in> set ALL_NUMBERS. Some d \<notin> set ?row \<and> Some d \<notin> set ?col \<and> Some d \<notin> set ?sub}" .
  have r: "Some d \<notin> set ?row \<longleftrightarrow> (\<forall>c<9. cellAt b i c \<noteq> Some d)" for d
    by (simp add: in_set_getRowContents)
  have c: "Some d \<notin> set ?col \<longleftrightarrow> (\<forall>r<9. cellAt b r j \<noteq> Some d)" for d
    by (simp add: in_set_getColumnContents[OF assms(2)])
  have s: "Some d \<notin> set ?sub \<longleftrightarrow>
           (\<forall>r<9. \<forall>c<9. r div 3 = i div 3 \<and> c div 3 = j div 3 \<longrightarrow> cellAt b r c \<noteq> Some d)" for d
    unfolding in_set_getSubGridContents[OF assms] by blast
  show ?thesis unfolding L r c s set_ALL_NUMBERS by simp
qed

lemma sorted_getOptionsForCoord: "sorted_wrt (<) (getOptionsForCoord b coord)"
  unfolding getOptionsForCoord_def Let_def setDifference_def
  by (rule sorted_wrt_filter) (simp add: ALL_NUMBERS_def)

text \<open>
  Claim C9. For every board and every coordinate of an empty cell, \<^verbatim>\<open>getOptionsForCoord\<close>
  returns exactly the digits of 1 to 9 that occur neither in the cell's row, nor in its column,
  nor in its 3x3 sub-grid, in strictly ascending order (so without duplicates).
\<close>

theorem getOptionsForCoord_candidates:
  assumes "i < 9" and "j < 9" and "cellAt b i j = None"
  shows "set (getOptionsForCoord b (i, j)) =
           {d. 1 \<le> d \<and> d \<le> 9 \<and> (\<forall>c<9. cellAt b i c \<noteq> Some d) \<and> (\<forall>r<9. cellAt b r j \<noteq> Some d)
                \<and> (\<forall>r<9. \<forall>c<9. r div 3 = i div 3 \<and> c div 3 = j div 3 \<longrightarrow> cellAt b r c \<noteq> Some d)}
         \<and> sorted_wrt (<) (getOptionsForCoord b (i, j))"
  using set_getOptionsForCoord[OF assms(1,2)] sorted_getOptionsForCoord by simp

theorem getOptionsForCoord_candidates_witness:
  "cellAt puzzle 0 2 = None \<and> getOptionsForCoord puzzle (0, 2) = [1, 2, 4] \<and>
   set (getOptionsForCoord puzzle (0, 2)) =
     {d. 1 \<le> d \<and> d \<le> 9 \<and> (\<forall>c<9. cellAt puzzle 0 c \<noteq> Some d) \<and> (\<forall>r<9. cellAt puzzle r 2 \<noteq> Some d)
          \<and> (\<forall>r<9. \<forall>c<9. r div 3 = 0 div 3 \<and> c div 3 = 2 div 3 \<longrightarrow> cellAt puzzle r c \<noteq> Some d)}
   \<and> sorted_wrt (<) (getOptionsForCoord puzzle (0, 2))"
proof -
  have e: "cellAt puzzle 0 2 = None" by code_simp
  have o: "getOptionsForCoord puzzle (0, 2) = [1, 2, 4]" by code_simp
  have "(0::nat) < 9" "(2::nat) < 9" by simp_all
  from getOptionsForCoord_candidates[OF this e] e o show ?thesis by (intro conjI) blast+
qed

text \<open>
  Claim C10. For every board, \<^verbatim>\<open>getNextEmptyCoord\<close> returns the empty cell's coordinate that
  is smallest in the order by row, then by column, and it returns \<^verbatim>\<open>null\<close> exactly when the
  board has no empty cell.
\<close>

theorem getNextEmptyCoord_first_empty:
  "(getNextEmptyCoord b = None \<longleftrightarrow> (\<forall>i<9. \<forall>j<9. cellAt b i j \<noteq> None)) \<and>
   (\<forall>i j. getNextEmptyCoord b = Some (i, j) \<longrightarrow>
      i < 9 \<and> j < 9 \<and> cellAt b i j = None \<and>
      (\<forall>i'<9. \<forall>j'<9. cellAt b i' j' = None \<longrightarrow> i < i' \<or> (i = i' \<and> j \<le> j')))"
  using getNextEmptyCoord_None[of b] getNextEmptyCoord_Some[of b] by blast

theorem getNextEmptyCoord_first_empty_witness:
  "getNextEmptyCoord puzzle = Some (0, 2) \<and> cellAt puzzle 0 2 = None \<and>
   cellAt puzzle 0 0 \<noteq> None \<and> cellAt puzzle 0 1 \<noteq> None"
proof -
  have n: "getNextEmptyCoord puzzle = Some (0, 2)" by code_simp
  from getNextEmptyCoord_first_empty[of puzzle] n
  have e: "cellAt puzzle 0 2 = None"
    and least: "\<forall>i'<9. \<forall>j'<9. cellAt puzzle i' j' = None \<longrightarrow> 0 < i' \<or> (0 = i' \<and> 2 \<le> j')"
    by blast+
  from least[rule_format, of 0 0] have "cellAt puzzle 0 0 \<noteq> None" by auto
  moreover from least[rule_format, of 0 1] have "cellAt puzzle 0 1 \<noteq> None" by auto
  ultimately show ?thesis using n e by simp
qed

section \<open>The validator\<close>

definition checkFullBoard :: "sudoku \<Rightarrow> bool" where
  "checkFullBoard brd =
     (case getNextEmptyCoord brd of
        Some next \<Rightarrow> False
      | None \<Rightarrow>
          list_all
            (\<lambda>i. let row = getRowContents brd (i, 0);
                     col = getColumnContents brd (0, i);
                     sub = getSubGridContents brd ((i * 3) mod 9, (i * 3) mod 9);
                     rowAndCol = setIntersection (new_Set row) (new_Set col);
                     andSub = setIntersection (new_Set sub) rowAndCol;
                     intersect = setIntersection (map Some ALL_NUMBERS) andSub
                 in length intersect = 9)
            [0..<9])"

section \<open>Parsing and printing\<close>

text \<open>The three errors \<^verbatim>\<open>parseGame\<close> throws, in the order of the source.\<close>

datatype error =
    NotNineLines      \<comment> \<open>\<^verbatim>\<open>File did not contain exactly 9 lines\<close>\<close>
  | LineNotNineChars  \<comment> \<open>\<^verbatim>\<open>File contained a line without exactly 9 characters\<close>\<close>
  | BadCharacter      \<comment> \<open>\<^verbatim>\<open>File contained non-numeric, non-delimiter character\<close>\<close>

definition DELIMITER :: char where
  "DELIMITER = CHR '' ''"

text \<open>\<^verbatim>\<open>EOL\<close> of \<^verbatim>\<open>node:os\<close>, on a POSIX system: the line feed.\<close>

definition EOL :: string where
  "EOL = [CHR 0x0A]"

text \<open>
  \<^verbatim>\<open>s.split(sep)\<close> for a string separator: the pieces of \<open>s\<close> between the occurrences of
  \<open>sep\<close>, found from left to right; with the empty separator, the characters of \<open>s\<close>.
\<close>

function splitAt :: "string \<Rightarrow> string \<Rightarrow> string list" where
  "splitAt sep [] = [[]]"
| "splitAt sep (c # cs) =
     (if sep \<noteq> [] \<and> take (length sep) (c # cs) = sep
      then [] # splitAt sep (drop (length sep) (c # cs))
      else (case splitAt sep cs of
              piece # pieces \<Rightarrow> (c # piece) # pieces
            | [] \<Rightarrow> [[c]]))"
  by pat_completeness auto
termination
  by (relation "measure (\<lambda>(sep, s). length s)") auto

text \<open>\<^verbatim>\<open>content.split(EOL)\<close>\<close>

definition split :: "string \<Rightarrow> string \<Rightarrow> string list" where
  "split s sep = (if sep = [] then map (\<lambda>c. [c]) s else splitAt sep s)"

text \<open>
  \<^verbatim>\<open>Number.parseInt(char)\<close> on a string of one character: the digit's value, and \<^verbatim>\<open>NaN\<close>
  (here \<open>None\<close>) for any other character.
\<close>

definition parseInt :: "char \<Rightarrow> nat option" where
  "parseInt char =
     (let code = (of_char char :: nat) in
      if 48 \<le> code \<and> code \<le> 57 then Some (code - 48) else None)"

text \<open>\<^verbatim>\<open>xs.map(f)\<close> for an \<open>f\<close> that may throw: the first exception ends the traversal.\<close>

fun mapE :: "('a \<Rightarrow> error + 'b) \<Rightarrow> 'a list \<Rightarrow> error + 'b list" where
  "mapE f [] = Inr []"
| "mapE f (x # xs) =
     (case f x of
        Inl e \<Rightarrow> Inl e
      | Inr y \<Rightarrow> (case mapE f xs of Inl e \<Rightarrow> Inl e | Inr ys \<Rightarrow> Inr (y # ys)))"

text \<open>The callbacks of the two \<^verbatim>\<open>map\<close> calls of \<^verbatim>\<open>parseGame\<close>: for a character, and for a line.\<close>

definition parseChar :: "char \<Rightarrow> error + cell" where
  "parseChar char =
     (case parseInt char of
        Some num \<Rightarrow> Inr (Some num)
      | None \<Rightarrow> if char = DELIMITER then Inr None else Inl BadCharacter)"

definition parseLine :: "string \<Rightarrow> error + cell list" where
  "parseLine line =
     (if length line \<noteq> 9 then Inl LineNotNineChars else mapE parseChar line)"

text \<open>\<^verbatim>\<open>parseGame\<close>, as a function of the text of the file.\<close>

definition parseGame :: "string \<Rightarrow> error + sudoku" where
  "parseGame content =
     (let lines = butlast (split content EOL) in
      if length lines \<noteq> 9 then Inl NotNineLines
      else (case mapE parseLine lines of
              Inl e \<Rightarrow> Inl e
            | Inr rows \<Rightarrow> Inr (tuple9_of (map tuple9_of rows))))"

text \<open>\<^verbatim>\<open>n.toString()\<close> of a non-negative integer: its decimal digits.\<close>

fun toString :: "nat \<Rightarrow> string" where
  "toString n =
     (if n < 10 then [char_of (48 + n)]
      else toString (n div 10) @ [char_of (48 + n mod 10)])"

declare toString.simps [simp del]

text \<open>
  \<^verbatim>\<open>prettyPrint\<close> writes one line per row with \<^verbatim>\<open>console.log\<close>: the lines it writes, and
  the text they make on the console (each line followed by a line feed).
\<close>

definition prettyPrint :: "sudoku \<Rightarrow> string list" where
  "prettyPrint brd =
     map (\<lambda>i. foldl (\<lambda>row j. case nth9 (nth9 brd i) j of
                                None \<Rightarrow> row @ ''* ''
                              | Some n \<Rightarrow> row @ toString n @ '' '')
                     [] [0..<9])
         [0..<9]"

definition consoleText :: "string list \<Rightarrow> string" where
  "consoleText lines = concat (map (\<lambda>line. line @ [CHR 0x0A]) lines)"

text \<open>
  \<^verbatim>\<open>main\<close>, as a function of the text of the file that \<^verbatim>\<open>--file\<close> names: the lines it
  writes to the console, or the error of the parser.
\<close>

definition main :: "string \<Rightarrow> error + string list" where
  "main content =
     (case parseGame content of
        Inl e \<Rightarrow> Inl e
      | Inr brd \<Rightarrow>
          Inr ([''Original board''] @ prettyPrint brd @ [''-----------------''] @
               (let isBoardPreSolved = checkFullBoard brd in
                if \<not> isBoardPreSolved then
                  (let solvedGame = solve \<lparr>solved = False, board = brd\<rparr> in
                   if \<not> solved solvedGame then [''UNSOLVABLE'']
                   else [''SOLVED''] @ prettyPrint (board solvedGame))
                else [''PRE-SOLVED''])))"

text \<open>
  A full board whose rows and columns are permutations of 1 to 9, as are its three sub-grids
  on the diagonal, but none of the six others.
\<close>

definition latinBoard :: sudoku where
  "latinBoard = boardOfDigits
     [[1, 2, 3, 9, 4, 8, 7, 5, 6],
      [4, 5, 6, 1, 7, 9, 8, 2, 3],
      [7, 8, 9, 4, 5, 6, 2, 3, 1],
      [2, 3, 1, 5, 6, 7, 4, 8, 9],
      [3, 7, 2, 8, 9, 1, 5, 6, 4],
      [8, 6, 5, 2, 3, 4, 1, 9, 7],
      [5, 4, 7, 6, 8, 3, 9, 1, 2],
      [6, 9, 8, 7, 1, 2, 3, 4, 5],
      [9, 1, 4, 3, 2, 5, 6, 7, 8]]"

text \<open>The text of a file from its lines, each ended by \<^verbatim>\<open>EOL\<close>; a file with \<^verbatim>\<open>0\<close> for the blanks.\<close>

definition fileOfLines :: "string list \<Rightarrow> string" where
  "fileOfLines lines = concat (map (\<lambda>line. line @ EOL) lines)"

definition zeroFile :: string where
  "zeroFile = fileOfLines
     [''530070000'', ''600195000'', ''098000060'', ''800060003'', ''400803001'',
      ''700020006'', ''060000280'', ''000419005'', ''000080079'']"

section \<open>What the validator checks, and what the parser accepts\<close>

lemma length_filter_full: "length (filter P xs) = length xs \<longleftrightarrow> (\<forall>x\<in>set xs. P x)"
proof (induction xs)
  case Nil
  show ?case by simp
next
  case (Cons x xs)
  have le: "length (filter P xs) \<le> length xs" by (rule length_filter_le)
  show ?case
  proof (cases "P x")
    case True
    then show ?thesis using Cons.IH by simp
  next
    case False
    from le have "length (filter P xs) \<noteq> Suc (length xs)" by linarith
    then show ?thesis using False by simp
  qed
qed

lemma set_setIntersection: "set (setIntersection a b) = set a \<inter> set b"
  by (auto simp: setIntersection_def)

lemma length_ALL_NUMBERS: "length ALL_NUMBERS = 9"
  by (simp add: ALL_NUMBERS_def)

lemma size_intersect_ALL:
  "length (setIntersection (map Some ALL_NUMBERS) s) = 9 \<longleftrightarrow> (\<forall>d\<in>set ALL_NUMBERS. Some d \<in> set s)"
proof -
  have "length (setIntersection (map Some ALL_NUMBERS) s) = length (map Some ALL_NUMBERS)
        \<longleftrightarrow> (\<forall>x\<in>set (map Some ALL_NUMBERS). x \<in> set s)"
    unfolding setIntersection_def by (rule length_filter_full)
  then show ?thesis by (simp add: length_ALL_NUMBERS)
qed

lemma checkFullBoard_iff:
  "checkFullBoard b \<longleftrightarrow>
     getNextEmptyCoord b = None \<and>
     (\<forall>i\<in>set [0..<9]. \<forall>d\<in>set ALL_NUMBERS.
        Some d \<in> set (getRowContents b (i, 0)) \<and>
        Some d \<in> set (getColumnContents b (0, i)) \<and>
        Some d \<in> set (getSubGridContents b ((i * 3) mod 9, (i * 3) mod 9)))"
proof (cases "getNextEmptyCoord b")
  case (Some c)
  then show ?thesis by (simp add: checkFullBoard_def)
next
  case None
  have "checkFullBoard b \<longleftrightarrow>
        (\<forall>i\<in>set [0..<9]. \<forall>d\<in>set ALL_NUMBERS.
           Some d \<in> set (setIntersection (new_Set (getSubGridContents b ((i * 3) mod 9, (i * 3) mod 9)))
                           (setIntersection (new_Set (getRowContents b (i, 0)))
                                            (new_Set (getColumnContents b (0, i))))))"
    unfolding checkFullBoard_def None Let_def list_all_iff size_intersect_ALL by simp
  also have "\<dots> \<longleftrightarrow>
        (\<forall>i\<in>set [0..<9]. \<forall>d\<in>set ALL_NUMBERS.
           Some d \<in> set (getRowContents b (i, 0)) \<and>
           Some d \<in> set (getColumnContents b (0, i)) \<and>
           Some d \<in> set (getSubGridContents b ((i * 3) mod 9, (i * 3) mod 9)))"
    unfolding set_setIntersection set_new_Set by blast
  finally show ?thesis using None by simp
qed

text \<open>
  Claim C1. For every fully-filled board, \<^verbatim>\<open>checkFullBoard\<close> returns true if and only if each of
  the 27 regions (9 rows, 9 columns, 9 sub-grids) is a permutation of the digits 1 to 9. The code
  reads the sub-grid of the coordinate \<^verbatim>\<open>[(i * 3) % 9, (i * 3) % 9]\<close>, which for \<open>i\<close> from 0
  to 8 is always one of the three sub-grids on the diagonal: here is a full board that
  \<^verbatim>\<open>checkFullBoard\<close> accepts although the digits 9 and 4 are repeated in its top middle
  sub-grid.
\<close>

theorem checkFullBoard_accepts_repeated_digit:
  "getNextEmptyCoord latinBoard = None \<and> checkFullBoard latinBoard \<and>
   getSubGridContents latinBoard (0, 3) =
     [Some 9, Some 4, Some 8, Some 1, Some 7, Some 9, Some 4, Some 5, Some 6] \<and>
   \<not> distinct (getSubGridContents latinBoard (0, 3))"
proof -
  have full: "getNextEmptyCoord latinBoard = None"
    by code_simp
  have regions: "\<forall>i\<in>set [0..<9]. \<forall>d\<in>set ALL_NUMBERS.
        Some d \<in> set (getRowContents latinBoard (i, 0)) \<and>
        Some d \<in> set (getColumnContents latinBoard (0, i)) \<and>
        Some d \<in> set (getSubGridContents latinBoard ((i * 3) mod 9, (i * 3) mod 9))"
    by code_simp
  have sub: "getSubGridContents latinBoard (0, 3) =
     [Some 9, Some 4, Some 8, Some 1, Some 7, Some 9, Some 4, Some 5, Some 6]"
    by code_simp
  have "checkFullBoard latinBoard"
    unfolding checkFullBoard_iff using full regions by (rule conjI)
  then show ?thesis using full sub by simp
qed

text \<open>
  Claim C2. \<^verbatim>\<open>parseGame\<close> accepts a character only if it is a digit 1 to 9 or the space, and
  any other character, including \<^verbatim>\<open>0\<close>, raises a parse error. The code accepts every
  character that \<^verbatim>\<open>Number.parseInt\<close> reads as a number, so also \<^verbatim>\<open>0\<close>: here is a file
  of nine lines of nine digits, some of them \<^verbatim>\<open>0\<close>, which it parses into a board whose cells
  hold the number 0.
\<close>

theorem parseGame_accepts_zero:
  "parseGame zeroFile =
     Inr (tuple9_of (map (\<lambda>ds. tuple9_of (map Some ds))
       [[5, 3, 0, 0, 7, 0, 0, 0, 0],
        [6, 0, 0, 1, 9, 5, 0, 0, 0],
        [0, 9, 8, 0, 0, 0, 0, 6, 0],
        [8, 0, 0, 0, 6, 0, 0, 0, 3],
        [4, 0, 0, 8, 0, 3, 0, 0, 1],
        [7, 0, 0, 0, 2, 0, 0, 0, 6],
        [0, 6, 0, 0, 0, 0, 2, 8, 0],
        [0, 0, 0, 4, 1, 9, 0, 0, 5],
        [0, 0, 0, 0, 8, 0, 0, 7, 9]]))"
  by code_simp

text \<open>
  What \<^verbatim>\<open>parseGame\<close> accepts: the files whose lines before the last \<^verbatim>\<open>EOL\<close> are nine lines
  of nine characters, each a space or one of the ten digits.
\<close>

lemma mapE_Inr_iff:
  "(\<exists>ys. mapE f xs = Inr ys) \<longleftrightarrow> (\<forall>x\<in>set xs. \<exists>y. f x = Inr y)"
proof (induction xs)
  case Nil
  show ?case by simp
next
  case (Cons x xs)
  show ?case
  proof (cases "f x")
    case (Inl e)
    then show ?thesis by auto
  next
    case (Inr y)
    then show ?thesis using Cons.IH by (cases "mapE f xs") auto
  qed
qed

lemma parseChar_Inr_iff:
  "(\<exists>v. parseChar c = Inr v) \<longleftrightarrow> c = CHR '' '' \<or> c \<in> set ''0123456789''"
proof -
  have d: "c \<in> set ''0123456789'' \<longleftrightarrow> 48 \<le> (of_char c :: nat) \<and> (of_char c :: nat) \<le> 57"
  proof
    assume "c \<in> set ''0123456789''"
    then show "48 \<le> (of_char c :: nat) \<and> (of_char c :: nat) \<le> 57" by auto
  next
    assume a: "48 \<le> (of_char c :: nat) \<and> (of_char c :: nat) \<le> 57"
    have "n = 48 \<or> n = 49 \<or> n = 50 \<or> n = 51 \<or> n = 52 \<or> n = 53 \<or> n = 54 \<or> n = 55 \<or>
          n = 56 \<or> n = 57" if "48 \<le> n" "n \<le> 57" for n :: nat
      using that by arith
    with a have "(of_char c :: nat) \<in> {48, 49, 50, 51, 52, 53, 54, 55, 56, 57}" by blast
    then have "(of_char c :: nat) \<in> of_char ` set ''0123456789''" by simp
    then show "c \<in> set ''0123456789''" by (auto simp del: set_simps)
  qed
  show ?thesis
    unfolding d parseChar_def parseInt_def DELIMITER_def by (auto simp: Let_def)
qed

lemma parseGame_accepts_iff:
  "(\<exists>brd. parseGame content = Inr brd) \<longleftrightarrow>
     length (butlast (split content EOL)) = 9 \<and>
     (\<forall>line\<in>set (butlast (split content EOL)).
        length line = 9 \<and> (\<forall>c\<in>set line. c = CHR '' '' \<or> c \<in> set ''0123456789''))"
proof -
  let ?lines = "butlast (split content EOL)"
  have l: "(\<exists>cells. parseLine line = Inr cells) \<longleftrightarrow>
           length line = 9 \<and> (\<forall>c\<in>set line. c = CHR '' '' \<or> c \<in> set ''0123456789'')" for line
    unfolding parseLine_def using mapE_Inr_iff[of parseChar line] parseChar_Inr_iff by auto
  have "(\<exists>brd. parseGame content = Inr brd) \<longleftrightarrow>
        length ?lines = 9 \<and> (\<exists>rows. mapE parseLine ?lines = Inr rows)"
    unfolding parseGame_def Let_def by (cases "mapE parseLine ?lines") auto
  then show ?thesis
    unfolding mapE_Inr_iff l .
qed

text \<open>
  The slice \<^verbatim>\<open>slice(0, -1)\<close> drops whatever follows the last \<^verbatim>\<open>EOL\<close>: nine good lines
  followed by an unterminated tenth line of any content are parsed, the tenth line being
  ignored, and nine good lines of which the last is not terminated are rejected.
\<close>

lemma parseGame_ignores_unterminated_line:
  "parseGame (fileOfLines (replicate 9 ''111111111'') @ ''xyz'')
     = Inr (boardOfDigits (replicate 9 (replicate 9 1)))"
  by code_simp

lemma parseGame_rejects_unterminated_ninth_line:
  "parseGame (fileOfLines (replicate 8 ''111111111'') @ ''111111111'') = Inl NotNineLines"
  by code_simp

section \<open>The solver on full boards\<close>

lemma forOptions_unsolved:
  "\<forall>option\<in>set options. \<not> solved (attempt option) \<Longrightarrow> forOptions attempt options game0 = game0"
  by (induction options) (simp_all add: Let_def)

lemma forOptions_solved:
  "\<exists>option\<in>set options. solved (attempt option) \<Longrightarrow> solved (forOptions attempt options game0)"
  by (induction options) (auto simp: Let_def)

lemma forOptions_result:
  "forOptions attempt options game0 = game0 \<or>
   (\<exists>option\<in>set options. solved (attempt option) \<and> forOptions attempt options game0 = attempt option)"
  by (induction options) (auto simp: Let_def)

lemma solve_None:
  "getNextEmptyCoord (board g) = None \<Longrightarrow> solve g = \<lparr>solved = True, board = board g\<rparr>"
  by (subst solve.simps) simp

lemma solve_Some:
  "getNextEmptyCoord (board g) = Some nxt \<Longrightarrow>
   solve g = forOptions (\<lambda>option. solve \<lparr>solved = False, board = setCell (board g) nxt option\<rparr>)
               (getOptionsForCoord (board g) nxt) g"
  by (subst solve.simps) (simp add: Let_def)

lemma solve_unsolved_is_input: "\<not> solved (solve g) \<Longrightarrow> solve g = g"
proof (cases "getNextEmptyCoord (board g)")
  case None
  then show "\<not> solved (solve g) \<Longrightarrow> solve g = g" by (simp add: solve_None)
next
  case (Some nxt)
  assume ns: "\<not> solved (solve g)"
  let ?f = "\<lambda>option. solve \<lparr>solved = False, board = setCell (board g) nxt option\<rparr>"
  from forOptions_result[of ?f "getOptionsForCoord (board g) nxt" g] ns
  show "solve g = g" unfolding solve_Some[OF Some] by auto
qed

text \<open>A full board that is not valid, and the file it is parsed from.\<close>

definition onesFile :: string where
  "onesFile = fileOfLines (replicate 9 ''111111111'')"

definition onesBoard :: sudoku where
  "onesBoard = boardOfDigits (replicate 9 (replicate 9 1))"

text \<open>
  Claim C5. For every board with no empty cell, \<^verbatim>\<open>solve\<close> returns the board unchanged with
  \<^verbatim>\<open>solved: true\<close>, whether the board is valid or not; so when the file holds a full board
  that \<^verbatim>\<open>checkFullBoard\<close> rejects, \<^verbatim>\<open>main\<close> prints \<^verbatim>\<open>SOLVED\<close> and the board itself, not
  \<^verbatim>\<open>UNSOLVABLE\<close>.
\<close>

theorem solve_full_board_unchanged:
  assumes "\<forall>i<9. \<forall>j<9. cellAt b i j \<noteq> None"
  shows "solve \<lparr>solved = s, board = b\<rparr> = \<lparr>solved = True, board = b\<rparr> \<and>
         (\<forall>content. parseGame content = Inr b \<and> \<not> checkFullBoard b \<longrightarrow>
            main content =
              Inr ([''Original board''] @ prettyPrint b @ [''-----------------'', ''SOLVED''] @
                   prettyPrint b))"
proof -
  from assms have n: "getNextEmptyCoord b = None" by (simp add: getNextEmptyCoord_None)
  then have s: "solve \<lparr>solved = s', board = b\<rparr> = \<lparr>solved = True, board = b\<rparr>" for s'
    by (simp add: solve_None)
  show ?thesis
  proof (intro conjI allI impI)
    show "solve \<lparr>solved = s, board = b\<rparr> = \<lparr>solved = True, board = b\<rparr>" by (rule s)
  next
    fix content
    assume "parseGame content = Inr b \<and> \<not> checkFullBoard b"
    then show "main content =
        Inr ([''Original board''] @ prettyPrint b @ [''-----------------'', ''SOLVED''] @ prettyPrint b)"
      unfolding main_def by (simp add: s Let_def)
  qed
qed

theorem solve_full_board_unchanged_witness:
  "parseGame onesFile = Inr onesBoard \<and> \<not> checkFullBoard onesBoard \<and>
   solve \<lparr>solved = False, board = onesBoard\<rparr> = \<lparr>solved = True, board = onesBoard\<rparr> \<and>
   main onesFile =
     Inr ([''Original board''] @ prettyPrint onesBoard @ [''-----------------'', ''SOLVED''] @
          prettyPrint onesBoard)"
proof -
  have p: "parseGame onesFile = Inr onesBoard" by code_simp
  have "getNextEmptyCoord onesBoard = None" by code_simp
  then have full: "\<forall>i<9. \<forall>j<9. cellAt onesBoard i j \<noteq> None"
    by (simp add: getNextEmptyCoord_None)
  have "\<not> (\<forall>d\<in>set ALL_NUMBERS. Some d \<in> set (getRowContents onesBoard (0, 0)))"
    by code_simp
  then have c: "\<not> checkFullBoard onesBoard"
    unfolding checkFullBoard_iff by auto
  from solve_full_board_unchanged[OF full, of False] p c show ?thesis by blast
qed

section \<open>The depth of the recursion\<close>

text \<open>
  The loop of \<^verbatim>\<open>solve\<close> once more, now counting: \<open>depth option\<close> is the depth of the
  recursion of the call for \<open>option\<close>. The calls are made one after the other until the first
  one that returns a solved game; the options after it are not tried.
\<close>

fun forDepth :: "(nat \<Rightarrow> game) \<Rightarrow> (nat \<Rightarrow> nat) \<Rightarrow> nat list \<Rightarrow> nat" where
  "forDepth attempt depth [] = 0"
| "forDepth attempt depth (option # options) =
     (if solved (attempt option) then Suc (depth option)
      else max (Suc (depth option)) (forDepth attempt depth options))"

lemma forDepth_cong [fundef_cong]:
  assumes "options = options'"
    and "\<And>option. option \<in> set options' \<Longrightarrow> attempt option = attempt' option"
    and "\<And>option. option \<in> set options' \<Longrightarrow> depth option = depth' option"
  shows "forDepth attempt depth options = forDepth attempt' depth' options'"
  using assms by (induction options' arbitrary: options) auto

text \<open>
  The greatest number of calls of \<^verbatim>\<open>solve\<close> that are nested inside the call
  \<^verbatim>\<open>solve(game)\<close>: 0 when it returns without calling itself.
\<close>

function solveDepth :: "game \<Rightarrow> nat" where
  "solveDepth game =
     (case getNextEmptyCoord (board game) of
        None \<Rightarrow> 0
      | Some next \<Rightarrow>
          (let options = getOptionsForCoord (board game) next in
           if length options = 0 then 0
           else forDepth
                  (\<lambda>option. solve \<lparr>solved = False, board = setCell (board game) next option\<rparr>)
                  (\<lambda>option. solveDepth \<lparr>solved = False, board = setCell (board game) next option\<rparr>)
                  options))"
  by pat_completeness auto
termination
proof (relation "measure (\<lambda>game. emptyCount (board game))")
  show "wf (measure (\<lambda>game. emptyCount (board game)))" by simp
next
  fix game :: game and nxt options option
  assume nx: "getNextEmptyCoord (board game) = Some nxt"
  obtain i j where ij: "nxt = (i, j)" by (cases nxt)
  from nx ij have nx': "getNextEmptyCoord (board game) = Some (i, j)" by simp
  have "Suc (emptyCount (setCell (board game) (i, j) option)) = emptyCount (board game)"
    by (rule emptyCount_setCell[OF getNextEmptyCoord_Some(1-3)[OF nx']])
  then show "(\<lparr>solved = False, board = setCell (board game) nxt option\<rparr>, game)
               \<in> measure (\<lambda>game. emptyCount (board game))"
    unfolding ij by simp
qed

declare solveDepth.simps [simp del]

lemma forDepth_le:
  "\<forall>option\<in>set options. depth option \<le> n \<Longrightarrow> forDepth attempt depth options \<le> Suc n"
  by (induction options) auto

lemma emptyCount_next:
  assumes "getNextEmptyCoord b = Some nxt"
  shows "Suc (emptyCount (setCell b nxt option)) = emptyCount b"
proof -
  obtain i j where ij: "nxt = (i, j)" by (cases nxt)
  from assms have nx: "getNextEmptyCoord b = Some (i, j)" unfolding ij .
  show ?thesis unfolding ij by (rule emptyCount_setCell[OF getNextEmptyCoord_Some(1-3)[OF nx]])
qed

lemma solveDepth_le: "solveDepth g \<le> emptyCount (board g)"
proof (induction g rule: solveDepth.induct)
  case (1 game)
  show ?case
  proof (cases "getNextEmptyCoord (board game)")
    case None
    then show ?thesis by (subst solveDepth.simps) simp
  next
    case (Some nxt)
    let ?opts = "getOptionsForCoord (board game) nxt"
    let ?new = "\<lambda>option. \<lparr>solved = False, board = setCell (board game) nxt option\<rparr>"
    show ?thesis
    proof (cases "length ?opts = 0")
      case True
      with Some show ?thesis by (subst solveDepth.simps) simp
    next
      case False
      have "\<forall>option\<in>set ?opts. solveDepth (?new option) \<le> emptyCount (board game) - 1"
      proof
        fix option assume o: "option \<in> set ?opts"
        have "solveDepth (?new option) \<le> emptyCount (board (?new option))"
          by (rule "1.IH"[OF Some refl False o])
        also have "\<dots> = emptyCount (board game) - 1"
          using emptyCount_next[OF Some, of option] by simp
        finally show "solveDepth (?new option) \<le> emptyCount (board game) - 1" .
      qed
      then have "forDepth (\<lambda>option. solve (?new option)) (\<lambda>option. solveDepth (?new option)) ?opts
                   \<le> Suc (emptyCount (board game) - 1)"
        by (rule forDepth_le)
      moreover have "0 < emptyCount (board game)"
        using emptyCount_next[OF Some, of 0] by simp
      ultimately show ?thesis
        using Some False by (subst solveDepth.simps) (simp add: Let_def)
    qed
  qed
qed

text \<open>
  Claim C7. \<^verbatim>\<open>solve\<close> terminates on every board (in this theory it is a total function, by
  the termination proof of its definition): each recursive call is made on a board with
  exactly one empty cell less than the caller's board, so the depth of the recursion is at
  most the number of empty cells, which is at most 81.
\<close>

theorem solve_recursion_depth_bounded:
  "(\<forall>next option. getNextEmptyCoord (board g) = Some next \<longrightarrow>
      Suc (emptyCount (setCell (board g) next option)) = emptyCount (board g)) \<and>
   solveDepth g \<le> emptyCount (board g) \<and> emptyCount (board g) \<le> 81"
  using emptyCount_next[of "board g"] solveDepth_le[of g] emptyCount_le[of "board g"] by blast

theorem solve_recursion_depth_bounded_witness:
  "getNextEmptyCoord puzzle = Some (0, 2) \<and> emptyCount puzzle = 51 \<and>
   emptyCount (setCell puzzle (0, 2) 1) = 50 \<and>
   solveDepth \<lparr>solved = False, board = puzzle\<rparr> \<le> 51"
proof -
  have n: "getNextEmptyCoord puzzle = Some (0, 2)" by code_simp
  have e: "emptyCount puzzle = 51" by code_simp
  from solve_recursion_depth_bounded[of "\<lparr>solved = False, board = puzzle\<rparr>"] n e
  show ?thesis by simp
qed

section \<open>Valid solutions, in the words of the specification\<close>

text \<open>
  The specification's notion of a solution, independent of the code: a region is a row, a
  column or a 3x3 sub-grid, and in a solution the nine cells of each region are exactly the
  digits 1 to 9 with no repeats.
\<close>

definition permutationOfDigits :: "cell list \<Rightarrow> bool" where
  "permutationOfDigits cells \<longleftrightarrow> distinct cells \<and> set cells = Some ` {1..9}"

text \<open>The cells of row \<open>i\<close> and of column \<open>j\<close>.\<close>

definition rowCells :: "sudoku \<Rightarrow> nat \<Rightarrow> cell list" where
  "rowCells b i = map (\<lambda>j. cellAt b i j) [0..<9]"

definition columnCells :: "sudoku \<Rightarrow> nat \<Rightarrow> cell list" where
  "columnCells b j = map (\<lambda>i. cellAt b i j) [0..<9]"

text \<open>The sub-grid in band \<open>bi\<close> (of rows) and stack \<open>bj\<close> (of columns), row by row.\<close>

definition subgridCells :: "sudoku \<Rightarrow> nat \<Rightarrow> nat \<Rightarrow> cell list" where
  "subgridCells b bi bj = map (\<lambda>m. cellAt b (3 * bi + m div 3) (3 * bj + m mod 3)) [0..<9]"

definition validSolution :: "sudoku \<Rightarrow> bool" where
  "validSolution b \<longleftrightarrow>
     (\<forall>i\<in>set [0..<9]. permutationOfDigits (rowCells b i)) \<and>
     (\<forall>j\<in>set [0..<9]. permutationOfDigits (columnCells b j)) \<and>
     (\<forall>bi\<in>set [0..<3]. \<forall>bj\<in>set [0..<3]. permutationOfDigits (subgridCells b bi bj))"

text \<open>Two coordinates that share a row, a column or a sub-grid.\<close>

definition sameRegion :: "coord \<Rightarrow> coord \<Rightarrow> bool" where
  "sameRegion p q \<longleftrightarrow>
     fst p = fst q \<or> snd p = snd q \<or> (fst p div 3 = fst q div 3 \<and> snd p div 3 = snd q div 3)"

text \<open>\<open>completes c b\<close>: the board \<open>c\<close> keeps every filled cell of \<open>b\<close>.\<close>

definition completes :: "sudoku \<Rightarrow> sudoku \<Rightarrow> bool" where
  "completes c b \<longleftrightarrow> (\<forall>i<9. \<forall>j<9. cellAt b i j \<noteq> None \<longrightarrow> cellAt c i j = cellAt b i j)"

lemma set_upt_9: "set [0..<9] = {..<9::nat}"
  by auto

lemma set_upt_3: "set [0..<3] = {..<3::nat}"
  by auto

lemma boxIndex:
  assumes "i < 9"
  shows "i div 3 < 3" "3 * (i div 3) + i mod 3 = (i::nat)"
  using assms by simp_all

lemma boxOffset:
  fixes a c :: nat
  assumes "a < 3" "c < 3"
  shows "a * 3 + c < 9" "(a * 3 + c) div 3 = a" "(a * 3 + c) mod 3 = c"
  using assms by simp_all

lemma validSolution_row:
  assumes "validSolution b" "i < 9"
  shows "inj_on (\<lambda>j. cellAt b i j) {..<9}" "(\<lambda>j. cellAt b i j) ` {..<9} = Some ` {1..9}"
proof -
  from assms have "permutationOfDigits (rowCells b i)"
    unfolding validSolution_def by simp
  then have "distinct (map (\<lambda>j. cellAt b i j) [0..<9])"
    and "set (map (\<lambda>j. cellAt b i j) [0..<9]) = Some ` {1..9}"
    unfolding permutationOfDigits_def rowCells_def by blast+
  then show "inj_on (\<lambda>j. cellAt b i j) {..<9}" "(\<lambda>j. cellAt b i j) ` {..<9} = Some ` {1..9}"
    unfolding distinct_map set_map set_upt_9 by blast+
qed

lemma validSolution_column:
  assumes "validSolution b" "j < 9"
  shows "inj_on (\<lambda>i. cellAt b i j) {..<9}" "(\<lambda>i. cellAt b i j) ` {..<9} = Some ` {1..9}"
proof -
  from assms have "permutationOfDigits (columnCells b j)"
    unfolding validSolution_def by simp
  then have "distinct (map (\<lambda>i. cellAt b i j) [0..<9])"
    and "set (map (\<lambda>i. cellAt b i j) [0..<9]) = Some ` {1..9}"
    unfolding permutationOfDigits_def columnCells_def by blast+
  then show "inj_on (\<lambda>i. cellAt b i j) {..<9}" "(\<lambda>i. cellAt b i j) ` {..<9} = Some ` {1..9}"
    unfolding distinct_map set_map set_upt_9 by blast+
qed

lemma validSolution_subgrid:
  assumes "validSolution b" "bi < 3" "bj < 3"
  shows "inj_on (\<lambda>m. cellAt b (3 * bi + m div 3) (3 * bj + m mod 3)) {..<9}"
    "(\<lambda>m. cellAt b (3 * bi + m div 3) (3 * bj + m mod 3)) ` {..<9} = Some ` {1..9}"
proof -
  from assms have "permutationOfDigits (subgridCells b bi bj)"
    unfolding validSolution_def set_upt_3 by simp
  then have "distinct (map (\<lambda>m. cellAt b (3 * bi + m div 3) (3 * bj + m mod 3)) [0..<9])"
    and "set (map (\<lambda>m. cellAt b (3 * bi + m div 3) (3 * bj + m mod 3)) [0..<9]) = Some ` {1..9}"
    unfolding permutationOfDigits_def subgridCells_def by blast+
  then show "inj_on (\<lambda>m. cellAt b (3 * bi + m div 3) (3 * bj + m mod 3)) {..<9}"
    "(\<lambda>m. cellAt b (3 * bi + m div 3) (3 * bj + m mod 3)) ` {..<9} = Some ` {1..9}"
    unfolding distinct_map set_map set_upt_9 by blast+
qed

lemma validSolution_cell:
  assumes "validSolution b" "i < 9" "j < 9"
  shows "\<exists>d. cellAt b i j = Some d \<and> 1 \<le> d \<and> d \<le> 9"
proof -
  from assms(3) have "cellAt b i j \<in> (\<lambda>j. cellAt b i j) ` {..<9}" by blast
  then have "cellAt b i j \<in> Some ` {1..9}"
    unfolding validSolution_row(2)[OF assms(1,2)] .
  then show ?thesis by auto
qed

lemma boxCell:
  assumes "i < 9" "j < 9"
  shows "i mod 3 * 3 + j mod 3 < 9"
    "cellAt b (3 * (i div 3) + (i mod 3 * 3 + j mod 3) div 3)
              (3 * (j div 3) + (i mod 3 * 3 + j mod 3) mod 3) = cellAt b i j"
proof -
  have a: "i mod 3 < 3" "j mod 3 < 3" by simp_all
  show "i mod 3 * 3 + j mod 3 < 9" by (rule boxOffset(1)[OF a])
  show "cellAt b (3 * (i div 3) + (i mod 3 * 3 + j mod 3) div 3)
              (3 * (j div 3) + (i mod 3 * 3 + j mod 3) mod 3) = cellAt b i j"
    unfolding boxOffset(2)[OF a] boxOffset(3)[OF a] by simp
qed

lemma validSolution_peers:
  assumes v: "validSolution b" and r: "i < 9" "j < 9" "i' < 9" "j' < 9"
    and ne: "(i, j) \<noteq> (i', j')" and sr: "sameRegion (i, j) (i', j')"
  shows "cellAt b i j \<noteq> cellAt b i' j'"
proof -
  from sr consider "i = i'" | "j = j'" | "i div 3 = i' div 3" "j div 3 = j' div 3"
    unfolding sameRegion_def by auto
  then show ?thesis
  proof cases
    case 1
    with ne have "j \<noteq> j'" by simp
    with validSolution_row(1)[OF v r(1)] r(2,4) show ?thesis
      unfolding 1 inj_on_def by blast
  next
    case 2
    with ne have "i \<noteq> i'" by simp
    with validSolution_column(1)[OF v r(2)] r(1,3) show ?thesis
      unfolding 2 inj_on_def by blast
  next
    case 3
    let ?m = "i mod 3 * 3 + j mod 3" and ?m' = "i' mod 3 * 3 + j' mod 3"
    let ?f = "\<lambda>m. cellAt b (3 * (i div 3) + m div 3) (3 * (j div 3) + m mod 3)"
    have bi: "i div 3 < 3" "j div 3 < 3" using r by simp_all
    have inj: "inj_on ?f {..<9}" by (rule validSolution_subgrid(1)[OF v bi])
    have m: "?m < 9" "?f ?m = cellAt b i j" by (rule boxCell[OF r(1,2)])+
    have m': "?m' < 9" "?f ?m' = cellAt b i' j'"
      using boxCell(1)[OF r(3,4)] boxCell(2)[OF r(3,4), of b] unfolding 3 by blast+
    have a: "i mod 3 < 3" "j mod 3 < 3" "i' mod 3 < 3" "j' mod 3 < 3" by simp_all
    have "?m \<noteq> ?m'"
    proof
      assume e: "?m = ?m'"
      have "i mod 3 = ?m div 3" by (rule boxOffset(2)[OF a(1,2), symmetric])
      also have "\<dots> = ?m' div 3" unfolding e ..
      also have "\<dots> = i' mod 3" by (rule boxOffset(2)[OF a(3,4)])
      finally have i: "i mod 3 = i' mod 3" .
      have "j mod 3 = ?m mod 3" by (rule boxOffset(3)[OF a(1,2), symmetric])
      also have "\<dots> = ?m' mod 3" unfolding e ..
      also have "\<dots> = j' mod 3" by (rule boxOffset(3)[OF a(3,4)])
      finally have j: "j mod 3 = j' mod 3" .
      have "i = i'" using i 3(1) by (metis div_mult_mod_eq)
      moreover have "j = j'" using j 3(2) by (metis div_mult_mod_eq)
      ultimately show False using ne by simp
    qed
    with inj m(1) m'(1) have "?f ?m \<noteq> ?f ?m'"
      unfolding inj_on_def by blast
    then show ?thesis unfolding m(2) m'(2) .
  qed
qed

lemma permutationOfDigits_inj:
  fixes f :: "nat \<Rightarrow> cell"
  assumes "inj_on f {..<9}" and "f ` {..<9} \<subseteq> Some ` {1..9}"
  shows "permutationOfDigits (map f [0..<9])"
proof -
  have "card (f ` {..<9}) = 9" using card_image[OF assms(1)] by simp
  moreover have "card (Some ` {1..9::nat}) = 9" by (simp add: card_image)
  ultimately have "f ` {..<9} = Some ` {1..9}"
    using assms(2) by (intro card_subset_eq) simp_all
  then show ?thesis
    unfolding permutationOfDigits_def distinct_map set_map set_upt_9 using assms(1) by simp
qed

lemma subgridCoord:
  fixes bi bj m :: nat
  assumes "bi < 3" "bj < 3" "m < 9"
  shows "3 * bi + m div 3 < 9" "3 * bj + m mod 3 < 9"
    "(3 * bi + m div 3) div 3 = bi" "(3 * bj + m mod 3) div 3 = bj"
proof -
  have a: "m div 3 < 3" "m mod 3 < 3" using assms(3) by simp_all
  show "3 * bi + m div 3 < 9" using a assms by arith
  show "3 * bj + m mod 3 < 9" using a assms by arith
  show "(3 * bi + m div 3) div 3 = bi" using a(1) by simp
  show "(3 * bj + m mod 3) div 3 = bj" by simp
qed

lemma validSolutionI:
  assumes digits: "\<And>i j. i < 9 \<Longrightarrow> j < 9 \<Longrightarrow> \<exists>d. cellAt b i j = Some d \<and> 1 \<le> d \<and> d \<le> 9"
    and peers: "\<And>i j i' j'. i < 9 \<Longrightarrow> j < 9 \<Longrightarrow> i' < 9 \<Longrightarrow> j' < 9 \<Longrightarrow> (i, j) \<noteq> (i', j') \<Longrightarrow>
                  sameRegion (i, j) (i', j') \<Longrightarrow> cellAt b i j \<noteq> cellAt b i' j'"
  shows "validSolution b"
proof -
  have dig: "cellAt b i j \<in> Some ` {1..9}" if "i < 9" "j < 9" for i j
    using digits[OF that] by auto
  have rows: "permutationOfDigits (rowCells b i)" if i: "i < 9" for i
    unfolding rowCells_def
  proof (rule permutationOfDigits_inj)
    show "inj_on (\<lambda>j. cellAt b i j) {..<9}"
    proof (rule inj_onI)
      fix j j' assume jj: "j \<in> {..<9}" "j' \<in> {..<9}" and e: "cellAt b i j = cellAt b i j'"
      show "j = j'"
      proof (rule ccontr)
        assume "j \<noteq> j'"
        then have "cellAt b i j \<noteq> cellAt b i j'"
          using jj i by (intro peers) (simp_all add: sameRegion_def)
        with e show False by simp
      qed
    qed
    show "(\<lambda>j. cellAt b i j) ` {..<9} \<subseteq> Some ` {1..9}" using dig[OF i] by auto
  qed
  have cols: "permutationOfDigits (columnCells b j)" if j: "j < 9" for j
    unfolding columnCells_def
  proof (rule permutationOfDigits_inj)
    show "inj_on (\<lambda>i. cellAt b i j) {..<9}"
    proof (rule inj_onI)
      fix i i' assume ii: "i \<in> {..<9}" "i' \<in> {..<9}" and e: "cellAt b i j = cellAt b i' j"
      show "i = i'"
      proof (rule ccontr)
        assume "i \<noteq> i'"
        then have "cellAt b i j \<noteq> cellAt b i' j"
          using ii j by (intro peers) (simp_all add: sameRegion_def)
        with e show False by simp
      qed
    qed
    show "(\<lambda>i. cellAt b i j) ` {..<9} \<subseteq> Some ` {1..9}" using dig[OF _ j] by auto
  qed
  have subs: "permutationOfDigits (subgridCells b bi bj)" if bb: "bi < 3" "bj < 3" for bi bj
    unfolding subgridCells_def
  proof (rule permutationOfDigits_inj)
    let ?f = "\<lambda>m. cellAt b (3 * bi + m div 3) (3 * bj + m mod 3)"
    show "inj_on ?f {..<9}"
    proof (rule inj_onI)
      fix m m' assume "m \<in> {..<9}" "m' \<in> {..<9}" and e: "?f m = ?f m'"
      then have mm: "m < 9" "m' < 9" by simp_all
      show "m = m'"
      proof (rule ccontr)
        assume ne: "m \<noteq> m'"
        have "m div 3 \<noteq> m' div 3 \<or> m mod 3 \<noteq> m' mod 3"
          using ne by (metis div_mult_mod_eq)
        then have "(3 * bi + m div 3, 3 * bj + m mod 3) \<noteq> (3 * bi + m' div 3, 3 * bj + m' mod 3)"
          by auto
        moreover have "sameRegion (3 * bi + m div 3, 3 * bj + m mod 3)
                                  (3 * bi + m' div 3, 3 * bj + m' mod 3)"
          unfolding sameRegion_def fst_conv snd_conv
            subgridCoord(3)[OF bb mm(1)] subgridCoord(4)[OF bb mm(1)]
            subgridCoord(3)[OF bb mm(2)] subgridCoord(4)[OF bb mm(2)] by simp
        ultimately have "?f m \<noteq> ?f m'"
          using subgridCoord(1,2)[OF bb mm(1)] subgridCoord(1,2)[OF bb mm(2)] by (intro peers)
        with e show False by simp
      qed
    qed
    show "?f ` {..<9} \<subseteq> Some ` {1..9}"
    proof
      fix x assume "x \<in> ?f ` {..<9}"
      then obtain m where m: "m < 9" "x = ?f m" by auto
      show "x \<in> Some ` {1..9}"
        unfolding m(2) by (rule dig[OF subgridCoord(1,2)[OF bb m(1)]])
    qed
  qed
  show ?thesis
    unfolding validSolution_def set_upt_9 set_upt_3 using rows cols subs by simp
qed

lemma validSolution_checkFullBoard:
  assumes v: "validSolution b"
  shows "checkFullBoard b"
  unfolding checkFullBoard_iff
proof (intro conjI ballI)
  show "getNextEmptyCoord b = None"
    unfolding getNextEmptyCoord_None using validSolution_cell[OF v] by fastforce
next
  fix i d assume "i \<in> set [0..<9]" and "d \<in> set ALL_NUMBERS"
  then have i: "i < 9" and d: "Some d \<in> Some ` {1..9}"
    unfolding set_ALL_NUMBERS by auto
  from d show "Some d \<in> set (getRowContents b (i, 0))"
    unfolding in_set_getRowContents validSolution_row(2)[OF v i, symmetric] by auto
  from d show "Some d \<in> set (getColumnContents b (0, i))"
    unfolding in_set_getColumnContents[OF i] validSolution_column(2)[OF v i, symmetric] by auto
  let ?k = "(i * 3) mod 9"
  have k: "?k < 9" "?k div 3 < 3" by simp_all
  from d have "Some d \<in> (\<lambda>m. cellAt b (3 * (?k div 3) + m div 3) (3 * (?k div 3) + m mod 3)) ` {..<9}"
    unfolding validSolution_subgrid(2)[OF v k(2) k(2)] .
  then obtain m where m: "m < 9"
    "cellAt b (3 * (?k div 3) + m div 3) (3 * (?k div 3) + m mod 3) = Some d" by auto
  show "Some d \<in> set (getSubGridContents b (?k, ?k))"
    unfolding in_set_getSubGridContents[OF k(1) k(1)]
    using subgridCoord[OF k(2) k(2) m(1)] m(2) by blast
qed

section \<open>Soundness and completeness of the search\<close>

text \<open>
  \<open>fills r b\<close>: the board \<open>r\<close> is full, keeps the filled cells of \<open>b\<close>, and holds in every
  cell that is empty in \<open>b\<close> a digit of 1 to 9 that no other cell of its row, column and
  sub-grid holds in \<open>r\<close>.
\<close>

definition fills :: "sudoku \<Rightarrow> sudoku \<Rightarrow> bool" where
  "fills r b \<longleftrightarrow>
     (\<forall>i<9. \<forall>j<9. cellAt r i j \<noteq> None) \<and> completes r b \<and>
     (\<forall>i<9. \<forall>j<9. cellAt b i j = None \<longrightarrow>
        (\<exists>d. cellAt r i j = Some d \<and> 1 \<le> d \<and> d \<le> 9 \<and>
             (\<forall>i'<9. \<forall>j'<9. (i', j') \<noteq> (i, j) \<and> sameRegion (i, j) (i', j') \<longrightarrow>
                cellAt r i' j' \<noteq> Some d)))"

lemma sameRegion_sym: "sameRegion p q \<Longrightarrow> sameRegion q p"
  unfolding sameRegion_def by auto

lemma option_range:
  assumes "i < 9" "j < 9" "d \<in> set (getOptionsForCoord b (i, j))"
  shows "1 \<le> d" "d \<le> 9"
  using assms(3) unfolding set_getOptionsForCoord[OF assms(1,2)] by simp_all

lemma option_not_in_region:
  assumes ij: "i < 9" "j < 9" and d: "d \<in> set (getOptionsForCoord b (i, j))"
    and q: "i' < 9" "j' < 9" and sr: "sameRegion (i, j) (i', j')"
  shows "cellAt b i' j' \<noteq> Some d"
proof -
  from d have r: "\<forall>c<9. cellAt b i c \<noteq> Some d" and c: "\<forall>r<9. cellAt b r j \<noteq> Some d"
    and s: "\<forall>r<9. \<forall>c<9. r div 3 = i div 3 \<and> c div 3 = j div 3 \<longrightarrow> cellAt b r c \<noteq> Some d"
    unfolding set_getOptionsForCoord[OF ij] by simp_all
  from sr consider "i = i'" | "j = j'" | "i' div 3 = i div 3" "j' div 3 = j div 3"
    unfolding sameRegion_def by auto
  then show ?thesis
  proof cases
    case 1 then show ?thesis using r q(2) by simp
  next
    case 2 then show ?thesis using c q(1) by simp
  next
    case 3 then show ?thesis using s q by simp
  qed
qed

lemma fills_full: "\<forall>i<9. \<forall>j<9. cellAt b i j \<noteq> None \<Longrightarrow> fills b b"
  unfolding fills_def completes_def by simp

lemma fills_step:
  assumes nx: "getNextEmptyCoord b = Some (i, j)"
    and d: "d \<in> set (getOptionsForCoord b (i, j))"
    and f: "fills r (setCell b (i, j) d)"
  shows "fills r b"
proof -
  let ?b1 = "setCell b (i, j) d"
  have ij: "i < 9" "j < 9" and e: "cellAt b i j = None"
    by (rule getNextEmptyCoord_Some[OF nx])+
  have b1_same: "cellAt ?b1 i j = Some d"
    using cellAt_setCell[OF ij ij, of b d] by simp
  have b1_other: "cellAt ?b1 i' j' = cellAt b i' j'"
    if "i' < 9" "j' < 9" "\<not> (i = i' \<and> j = j')" for i' j'
    using cellAt_setCell[OF ij that(1,2), of b d] that(3) by simp
  from f have full: "\<forall>i<9. \<forall>j<9. cellAt r i j \<noteq> None"
    and keep: "\<And>i' j'. i' < 9 \<Longrightarrow> j' < 9 \<Longrightarrow> cellAt ?b1 i' j' \<noteq> None \<Longrightarrow> cellAt r i' j' = cellAt ?b1 i' j'"
    and new: "\<And>i' j'. i' < 9 \<Longrightarrow> j' < 9 \<Longrightarrow> cellAt ?b1 i' j' = None \<Longrightarrow>
               \<exists>d'. cellAt r i' j' = Some d' \<and> 1 \<le> d' \<and> d' \<le> 9 \<and>
                 (\<forall>i''<9. \<forall>j''<9. (i'', j'') \<noteq> (i', j') \<and> sameRegion (i', j') (i'', j'') \<longrightarrow>
                    cellAt r i'' j'' \<noteq> Some d')"
    unfolding fills_def completes_def by blast+
  have rij: "cellAt r i j = Some d"
    using keep[OF ij] b1_same by simp
  have c: "completes r b"
    unfolding completes_def
  proof (intro allI impI)
    fix i' j' assume q: "i' < 9" "j' < 9" and ne: "cellAt b i' j' \<noteq> None"
    from ne e have "\<not> (i = i' \<and> j = j')" by auto
    then have "cellAt ?b1 i' j' = cellAt b i' j'" by (rule b1_other[OF q])
    with keep[OF q] ne show "cellAt r i' j' = cellAt b i' j'" by simp
  qed
  have n: "\<exists>d'. cellAt r i' j' = Some d' \<and> 1 \<le> d' \<and> d' \<le> 9 \<and>
             (\<forall>i''<9. \<forall>j''<9. (i'', j'') \<noteq> (i', j') \<and> sameRegion (i', j') (i'', j'') \<longrightarrow>
                cellAt r i'' j'' \<noteq> Some d')"
    if q: "i' < 9" "j' < 9" and em: "cellAt b i' j' = None" for i' j'
  proof (cases "i = i' \<and> j = j'")
    case False
    then have "cellAt ?b1 i' j' = None" using b1_other[OF q] em by simp
    then show ?thesis by (rule new[OF q])
  next
    case True
    have "cellAt r i'' j'' \<noteq> Some d"
      if q': "i'' < 9" "j'' < 9" and ne: "(i'', j'') \<noteq> (i, j)" and sr: "sameRegion (i, j) (i'', j'')"
      for i'' j''
    proof (cases "cellAt ?b1 i'' j''")
      case None
      from new[OF q' None] obtain d' where d': "cellAt r i'' j'' = Some d'"
        and o: "\<forall>k<9. \<forall>l<9. (k, l) \<noteq> (i'', j'') \<and> sameRegion (i'', j'') (k, l) \<longrightarrow> cellAt r k l \<noteq> Some d'"
        by blast
      from o ij ne sameRegion_sym[OF sr] have "cellAt r i j \<noteq> Some d'" by auto
      with rij d' show ?thesis by auto
    next
      case (Some v)
      from ne have "\<not> (i = i'' \<and> j = j'')" by auto
      then have "cellAt ?b1 i'' j'' = cellAt b i'' j''" by (rule b1_other[OF q'])
      with keep[OF q'] Some have "cellAt r i'' j'' = cellAt b i'' j''" by simp
      then show ?thesis using option_not_in_region[OF ij d q' sr] by simp
    qed
    then show ?thesis
      using True rij option_range[OF ij d] by blast
  qed
  show ?thesis
    unfolding fills_def using full c n by blast
qed

lemma cellAt_setCell_same:
  "i < 9 \<Longrightarrow> j < 9 \<Longrightarrow> cellAt (setCell b (i, j) v) i j = Some v"
  by (simp add: cellAt_setCell)

lemma cellAt_setCell_other:
  "i < 9 \<Longrightarrow> j < 9 \<Longrightarrow> i' < 9 \<Longrightarrow> j' < 9 \<Longrightarrow> \<not> (i = i' \<and> j = j') \<Longrightarrow>
   cellAt (setCell b (i, j) v) i' j' = cellAt b i' j'"
  by (auto simp: cellAt_setCell)

lemma forOptions_first:
  assumes "\<exists>option\<in>set options. solved (attempt option)"
  shows "\<exists>option\<in>set options. solved (attempt option) \<and>
           forOptions attempt options game0 = attempt option"
  using assms by (induction options) (auto simp: Let_def)

lemma solve_sound:
  "solved (solve g) \<Longrightarrow> \<not> solved g \<Longrightarrow> fills (board (solve g)) (board g)"
proof (induction g rule: solve.induct)
  case (1 game)
  show ?case
  proof (cases "getNextEmptyCoord (board game)")
    case None
    then have "fills (board game) (board game)"
      by (intro fills_full) (simp add: getNextEmptyCoord_None)
    then show ?thesis by (simp add: solve_None[OF None])
  next
    case (Some nxt)
    obtain i j where ij: "nxt = (i, j)" by (cases nxt)
    let ?opts = "getOptionsForCoord (board game) nxt"
    let ?new = "\<lambda>option. \<lparr>solved = False, board = setCell (board game) nxt option\<rparr>"
    from forOptions_result[of "\<lambda>option. solve (?new option)" ?opts game] "1.prems"
    obtain d where d: "d \<in> set ?opts" "solved (solve (?new d))" "solve game = solve (?new d)"
      unfolding solve_Some[OF Some] by auto
    from d(1) have len: "length ?opts \<noteq> 0" by auto
    have "fills (board (solve (?new d))) (board (?new d))"
      by (rule "1.IH"[OF Some refl len d(1) refl refl d(2)]) simp
    then have "fills (board (solve game)) (setCell (board game) (i, j) d)"
      unfolding d(3) ij by simp
    then show ?thesis
      by (rule fills_step[OF Some[unfolded ij] d(1)[unfolded ij]])
  qed
qed

lemma solve_complete:
  "validSolution c \<Longrightarrow> completes c (board g) \<Longrightarrow> solved (solve g)"
proof (induction g rule: solve.induct)
  case (1 game)
  note v = "1.prems"(1) and c = "1.prems"(2)
  show ?case
  proof (cases "getNextEmptyCoord (board game)")
    case None
    then show ?thesis by (simp add: solve_None)
  next
    case (Some nxt)
    obtain i j where ij: "nxt = (i, j)" by (cases nxt)
    let ?b = "board game"
    let ?opts = "getOptionsForCoord ?b nxt"
    let ?new = "\<lambda>option. \<lparr>solved = False, board = setCell ?b nxt option\<rparr>"
    from Some have nx: "getNextEmptyCoord ?b = Some (i, j)" unfolding ij .
    have r: "i < 9" "j < 9" and e: "cellAt ?b i j = None"
      by (rule getNextEmptyCoord_Some[OF nx])+
    from validSolution_cell[OF v r] obtain d where d: "cellAt c i j = Some d" "1 \<le> d" "d \<le> 9"
      by blast
    have keep: "cellAt c i' j' = cellAt ?b i' j'" if "i' < 9" "j' < 9" "cellAt ?b i' j' \<noteq> None" for i' j'
      using c that unfolding completes_def by blast
    have free: "cellAt ?b i' j' \<noteq> Some d"
      if q: "i' < 9" "j' < 9" and sr: "sameRegion (i, j) (i', j')" for i' j'
    proof
      assume a: "cellAt ?b i' j' = Some d"
      with e have ne: "(i, j) \<noteq> (i', j')" by auto
      from a keep[OF q] have "cellAt c i' j' = Some d" by simp
      with validSolution_peers[OF v r q ne sr] d(1) show False by simp
    qed
    have "d \<in> set (getOptionsForCoord ?b (i, j))"
      unfolding set_getOptionsForCoord[OF r]
    proof (intro CollectI conjI allI impI)
      show "1 \<le> d" "d \<le> 9" by (rule d(2), rule d(3))
      show "cellAt ?b i c' \<noteq> Some d" if "c' < 9" for c'
        using that r by (intro free) (simp_all add: sameRegion_def)
      show "cellAt ?b r' j \<noteq> Some d" if "r' < 9" for r'
        using that r by (intro free) (simp_all add: sameRegion_def)
      show "cellAt ?b r' c' \<noteq> Some d"
        if "r' < 9" "c' < 9" "r' div 3 = i div 3 \<and> c' div 3 = j div 3" for r' c'
        using that by (intro free) (simp_all add: sameRegion_def)
    qed
    then have din: "d \<in> set ?opts" unfolding ij .
    then have len: "length ?opts \<noteq> 0" by auto
    have "completes c (board (?new d))"
      unfolding completes_def
    proof (intro allI impI)
      fix i' j' assume q: "i' < 9" "j' < 9" and ne: "cellAt (board (?new d)) i' j' \<noteq> None"
      show "cellAt c i' j' = cellAt (board (?new d)) i' j'"
      proof (cases "i = i' \<and> j = j'")
        case True
        then show ?thesis using cellAt_setCell_same[OF r, of ?b d] d(1) unfolding ij by simp
      next
        case False
        then have "cellAt (board (?new d)) i' j' = cellAt ?b i' j'"
          using cellAt_setCell_other[OF r q, of ?b d] unfolding ij by simp
        with ne keep[OF q] show ?thesis by simp
      qed
    qed
    then have "solved (solve (?new d))"
      by (rule "1.IH"[OF Some refl len din refl refl v])
    with din have "\<exists>option\<in>set ?opts. solved (solve (?new option))" by blast
    then show ?thesis
      unfolding solve_Some[OF Some] by (rule forOptions_solved)
  qed
qed

lemma fills_validSolution:
  assumes f: "fills r b" and v: "validSolution c" and c: "completes c b"
  shows "validSolution r"
proof (rule validSolutionI)
  from f have keep: "\<And>i j. i < 9 \<Longrightarrow> j < 9 \<Longrightarrow> cellAt b i j \<noteq> None \<Longrightarrow> cellAt r i j = cellAt b i j"
    and new: "\<And>i j. i < 9 \<Longrightarrow> j < 9 \<Longrightarrow> cellAt b i j = None \<Longrightarrow>
               \<exists>d. cellAt r i j = Some d \<and> 1 \<le> d \<and> d \<le> 9 \<and>
                 (\<forall>i'<9. \<forall>j'<9. (i', j') \<noteq> (i, j) \<and> sameRegion (i, j) (i', j') \<longrightarrow>
                    cellAt r i' j' \<noteq> Some d)"
    unfolding fills_def completes_def by blast+
  have given: "cellAt r i j = cellAt c i j" if "i < 9" "j < 9" "cellAt b i j \<noteq> None" for i j
    using keep[OF that] c that unfolding completes_def by simp
  show "\<exists>d. cellAt r i j = Some d \<and> 1 \<le> d \<and> d \<le> 9" if q: "i < 9" "j < 9" for i j
  proof (cases "cellAt b i j")
    case None
    from new[OF q None] show ?thesis by blast
  next
    case (Some x)
    then have "cellAt r i j = cellAt c i j" by (intro given[OF q]) simp
    then show ?thesis using validSolution_cell[OF v q] by simp
  qed
  have one: "cellAt r i j \<noteq> cellAt r i' j'"
    if q: "i < 9" "j < 9" "i' < 9" "j' < 9" and ne: "(i, j) \<noteq> (i', j')"
      and sr: "sameRegion (i, j) (i', j')" and em: "cellAt b i j = None" for i j i' j'
  proof -
    from new[OF q(1,2) em] obtain d where "cellAt r i j = Some d"
      "\<forall>i'<9. \<forall>j'<9. (i', j') \<noteq> (i, j) \<and> sameRegion (i, j) (i', j') \<longrightarrow> cellAt r i' j' \<noteq> Some d"
      by blast
    with q(3,4) ne sr show ?thesis by (metis)
  qed
  show "cellAt r i j \<noteq> cellAt r i' j'"
    if q: "i < 9" "j < 9" "i' < 9" "j' < 9" and ne: "(i, j) \<noteq> (i', j')"
      and sr: "sameRegion (i, j) (i', j')" for i j i' j'
  proof (cases "cellAt b i j = None \<or> cellAt b i' j' = None")
    case True
    then show ?thesis
    proof
      assume "cellAt b i j = None"
      then show ?thesis by (rule one[OF q ne sr])
    next
      assume "cellAt b i' j' = None"
      then have "cellAt r i' j' \<noteq> cellAt r i j"
        using ne by (intro one[OF q(3,4) q(1,2) _ sameRegion_sym[OF sr]]) auto
      then show ?thesis by simp
    qed
  next
    case False
    then have "cellAt r i j = cellAt c i j" "cellAt r i' j' = cellAt c i' j'"
      using given[OF q(1,2)] given[OF q(3,4)] by simp_all
    then show ?thesis using validSolution_peers[OF v q ne sr] by simp
  qed
qed

lemma forOptions_indep:
  "\<exists>option\<in>set options. solved (attempt option) \<Longrightarrow>
   forOptions attempt options game0 = forOptions attempt options game1"
  by (induction options) (auto simp: Let_def)

lemma solve_flag:
  assumes "solved (solve \<lparr>solved = False, board = b\<rparr>)"
  shows "solve \<lparr>solved = s, board = b\<rparr> = solve \<lparr>solved = False, board = b\<rparr>"
proof (cases "getNextEmptyCoord b")
  case None
  then show ?thesis by (simp add: solve_None)
next
  case (Some nxt)
  let ?f = "\<lambda>option. solve \<lparr>solved = False, board = setCell b nxt option\<rparr>"
  let ?opts = "getOptionsForCoord b nxt"
  have eq: "solve \<lparr>solved = s', board = b\<rparr> = forOptions ?f ?opts \<lparr>solved = s', board = b\<rparr>" for s'
    using solve_Some[of "\<lparr>solved = s', board = b\<rparr>" nxt] Some by simp
  from forOptions_result[of ?f ?opts "\<lparr>solved = False, board = b\<rparr>"] assms
  have "\<exists>option\<in>set ?opts. solved (?f option)"
    unfolding eq by auto
  then show ?thesis
    unfolding eq by (rule forOptions_indep)
qed

text \<open>A valid solution that keeps the given digits of \<open>puzzle\<close>.\<close>

definition puzzleSolution :: sudoku where
  "puzzleSolution = boardOfDigits
     [[5, 3, 4, 6, 7, 8, 9, 1, 2],
      [6, 7, 2, 1, 9, 5, 3, 4, 8],
      [1, 9, 8, 3, 4, 2, 5, 6, 7],
      [8, 5, 9, 7, 6, 1, 4, 2, 3],
      [4, 2, 6, 8, 5, 3, 7, 9, 1],
      [7, 1, 3, 9, 2, 4, 8, 5, 6],
      [9, 6, 1, 5, 3, 7, 2, 8, 4],
      [2, 8, 7, 4, 1, 9, 6, 3, 5],
      [3, 4, 5, 2, 8, 6, 1, 7, 9]]"

lemma completes_code:
  "completes c b \<longleftrightarrow>
     (\<forall>i\<in>set [0..<9]. \<forall>j\<in>set [0..<9]. cellAt b i j \<noteq> None \<longrightarrow> cellAt c i j = cellAt b i j)"
  unfolding completes_def set_upt_9 by auto

text \<open>
  Claim C3. For every solvable input board, that is one whose filled cells are kept by some
  valid solution, \<^verbatim>\<open>solve\<close> returns \<^verbatim>\<open>solved: true\<close> and a board that passes
  \<^verbatim>\<open>checkFullBoard\<close> and agrees with the input board on every cell that was filled: the
  solver only fills empty cells. The returned board is moreover a valid solution.
\<close>

theorem solve_solvable_board:
  assumes "validSolution c" and "completes c b"
  shows "solved (solve \<lparr>solved = s, board = b\<rparr>) \<and>
         checkFullBoard (board (solve \<lparr>solved = s, board = b\<rparr>)) \<and>
         (\<forall>i<9. \<forall>j<9. cellAt b i j \<noteq> None \<longrightarrow>
            cellAt (board (solve \<lparr>solved = s, board = b\<rparr>)) i j = cellAt b i j) \<and>
         validSolution (board (solve \<lparr>solved = s, board = b\<rparr>))"
proof -
  let ?g = "\<lparr>solved = False, board = b\<rparr>"
  have s: "solved (solve ?g)"
    by (rule solve_complete[OF assms(1)]) (simp add: assms(2))
  then have f: "fills (board (solve ?g)) b"
    using solve_sound[of ?g] by simp
  then have v: "validSolution (board (solve ?g))"
    using assms by (rule fills_validSolution)
  from f have "completes (board (solve ?g)) b" unfolding fills_def by blast
  then have k: "\<forall>i<9. \<forall>j<9. cellAt b i j \<noteq> None \<longrightarrow> cellAt (board (solve ?g)) i j = cellAt b i j"
    unfolding completes_def .
  have eq: "solve \<lparr>solved = s, board = b\<rparr> = solve ?g" by (rule solve_flag[OF s])
  show ?thesis
    unfolding eq using s validSolution_checkFullBoard[OF v] k v by blast
qed

theorem solve_solvable_board_witness:
  "validSolution puzzleSolution \<and> completes puzzleSolution puzzle \<and>
   solved (solve \<lparr>solved = False, board = puzzle\<rparr>) \<and>
   checkFullBoard (board (solve \<lparr>solved = False, board = puzzle\<rparr>)) \<and>
   cellAt puzzle 0 0 = Some 5 \<and>
   cellAt (board (solve \<lparr>solved = False, board = puzzle\<rparr>)) 0 0 = Some 5"
proof -
  have v: "validSolution puzzleSolution" by code_simp
  have c: "completes puzzleSolution puzzle" unfolding completes_code by code_simp
  have g: "cellAt puzzle 0 0 = Some 5" by code_simp
  from solve_solvable_board[OF v c, of False] g v c show ?thesis by auto
qed

section \<open>A row with a repeated given digit\<close>

lemma fills_distinct:
  assumes f: "fills r b" and q: "i < 9" "j < 9" "i' < 9" "j' < 9"
    and ne: "(i, j) \<noteq> (i', j')" and sr: "sameRegion (i, j) (i', j')"
    and em: "cellAt b i j = None \<or> cellAt b i' j' = None"
  shows "cellAt r i j \<noteq> cellAt r i' j'"
proof -
  from f have new: "\<And>i j. i < 9 \<Longrightarrow> j < 9 \<Longrightarrow> cellAt b i j = None \<Longrightarrow>
               \<exists>d. cellAt r i j = Some d \<and>
                 (\<forall>i'<9. \<forall>j'<9. (i', j') \<noteq> (i, j) \<and> sameRegion (i, j) (i', j') \<longrightarrow>
                    cellAt r i' j' \<noteq> Some d)"
    unfolding fills_def by blast
  from em show ?thesis
  proof
    assume "cellAt b i j = None"
    from new[OF q(1,2) this] obtain d where "cellAt r i j = Some d"
      "\<forall>i'<9. \<forall>j'<9. (i', j') \<noteq> (i, j) \<and> sameRegion (i, j) (i', j') \<longrightarrow> cellAt r i' j' \<noteq> Some d"
      by blast
    with q(3,4) ne sr show ?thesis by metis
  next
    assume "cellAt b i' j' = None"
    from new[OF q(3,4) this] obtain d where "cellAt r i' j' = Some d"
      "\<forall>k<9. \<forall>l<9. (k, l) \<noteq> (i', j') \<and> sameRegion (i', j') (k, l) \<longrightarrow> cellAt r k l \<noteq> Some d"
      by blast
    with q(1,2) ne sameRegion_sym[OF sr] show ?thesis by metis
  qed
qed

lemma fills_digit:
  assumes f: "fills r b" and q: "i < 9" "j < 9"
    and g: "cellAt b i j \<noteq> None \<Longrightarrow> cellAt b i j \<in> Some ` {1..9}"
  shows "cellAt r i j \<in> Some ` {1..9}"
proof (cases "cellAt b i j")
  case None
  with f q obtain d where "cellAt r i j = Some d" "1 \<le> d" "d \<le> 9"
    unfolding fills_def by blast
  then show ?thesis by auto
next
  case (Some x)
  with f q have "cellAt r i j = cellAt b i j" unfolding fills_def completes_def by simp
  with g Some show ?thesis by simp
qed

lemma missing_digit:
  fixes f :: "nat \<Rightarrow> cell"
  assumes "f ` {..<9} \<subseteq> Some ` {1..9}" and "c1 < 9" "c2 < 9" "c1 \<noteq> c2" "f c1 = f c2"
  shows "\<exists>e. 1 \<le> e \<and> e \<le> 9 \<and> (\<forall>j<9. f j \<noteq> Some e)"
proof (rule ccontr)
  assume "\<not> ?thesis"
  then have all: "\<forall>e. 1 \<le> e \<and> e \<le> 9 \<longrightarrow> (\<exists>j<9. f j = Some e)" by blast
  have "Some ` {1..9} \<subseteq> f ` {..<9}"
  proof
    fix x :: cell assume "x \<in> Some ` {1..9}"
    then obtain e where x: "x = Some e" "1 \<le> e" "e \<le> 9" by auto
    with all obtain j where "j < 9" "f j = Some e" by blast
    then show "x \<in> f ` {..<9}" unfolding x(1) by force
  qed
  then have "card (Some ` {1..9::nat}) \<le> card (f ` {..<9})"
    by (intro card_mono) simp_all
  moreover have "card (Some ` {1..9::nat}) = 9" by (simp add: card_image)
  moreover have "card (f ` {..<9}) \<le> 9" using card_image_le[of "{..<9}" f] by simp
  ultimately have "card (f ` {..<9}) = card {..<9::nat}" by simp
  then have "inj_on f {..<9}" by (intro eq_card_imp_inj_on) simp_all
  with assms(2-5) show False unfolding inj_on_def by auto
qed

lemma all_digits:
  fixes f :: "nat \<Rightarrow> cell"
  assumes "inj_on f {..<9}" and "f ` {..<9} \<subseteq> Some ` {1..9}" and "1 \<le> e" "e \<le> 9"
  shows "\<exists>i<9. f i = Some e"
proof -
  have "card (f ` {..<9}) = 9" using card_image[OF assms(1)] by simp
  moreover have "card (Some ` {1..9::nat}) = 9" by (simp add: card_image)
  ultimately have "f ` {..<9} = Some ` {1..9}"
    using assms(2) by (intro card_subset_eq) simp_all
  moreover have "Some e \<in> Some ` {1..9}" using assms(3,4) by simp
  ultimately have "Some e \<in> f ` {..<9}" by simp
  then show ?thesis by auto
qed

lemma two_in_row_unfillable:
  assumes d: "1 \<le> d" "d \<le> 9" and r: "r < 9" and c: "c1 < 9" "c2 < 9" "c1 \<noteq> c2"
    and b: "\<And>i j. i < 9 \<Longrightarrow> j < 9 \<Longrightarrow>
              cellAt b i j = (if i = r \<and> (j = c1 \<or> j = c2) then Some d else None)"
  shows "\<not> fills R b"
proof
  assume f: "fills R b"
  have given: "cellAt b r c1 = Some d" "cellAt b r c2 = Some d"
    using b[OF r c(1)] b[OF r c(2)] by simp_all
  have empty: "cellAt b i j = None" if "i < 9" "j < 9" "i \<noteq> r" for i j
    using b[OF that(1,2)] that(3) by simp
  have dig: "cellAt R i j \<in> Some ` {1..9}" if q: "i < 9" "j < 9" for i j
  proof (rule fills_digit[OF f q])
    assume "cellAt b i j \<noteq> None"
    then have "cellAt b i j = Some d" using b[OF q] by (simp split: if_splits)
    then show "cellAt b i j \<in> Some ` {1..9}" using d by simp
  qed
  have keep: "cellAt R r c1 = Some d" "cellAt R r c2 = Some d"
    using f given r c unfolding fills_def completes_def by simp_all
  have "\<exists>e. 1 \<le> e \<and> e \<le> 9 \<and> (\<forall>j<9. cellAt R r j \<noteq> Some e)"
  proof (rule missing_digit[OF _ c])
    show "(\<lambda>j. cellAt R r j) ` {..<9} \<subseteq> Some ` {1..9}" using dig[OF r] by auto
    show "cellAt R r c1 = cellAt R r c2" using keep by simp
  qed
  then obtain e where e: "1 \<le> e" "e \<le> 9" and miss: "\<And>j. j < 9 \<Longrightarrow> cellAt R r j \<noteq> Some e"
    by blast
  have col: "\<exists>i. i < 9 \<and> i \<noteq> r \<and> cellAt R i j = Some e" if j: "j < 9" for j
  proof -
    have "inj_on (\<lambda>i. cellAt R i j) {..<9}"
    proof (rule inj_onI)
      fix i i' assume "i \<in> {..<9}" "i' \<in> {..<9}" and eq: "cellAt R i j = cellAt R i' j"
      then have ii: "i < 9" "i' < 9" by simp_all
      show "i = i'"
      proof (rule ccontr)
        assume ne: "i \<noteq> i'"
        then have "i \<noteq> r \<or> i' \<noteq> r" by auto
        then have "cellAt b i j = None \<or> cellAt b i' j = None"
          using empty[OF ii(1) j] empty[OF ii(2) j] by auto
        moreover have "(i, j) \<noteq> (i', j)" using ne by simp
        moreover have "sameRegion (i, j) (i', j)" unfolding sameRegion_def by simp
        ultimately have "cellAt R i j \<noteq> cellAt R i' j"
          by (intro fills_distinct[OF f ii(1) j ii(2) j])
        with eq show False by simp
      qed
    qed
    moreover have "(\<lambda>i. cellAt R i j) ` {..<9} \<subseteq> Some ` {1..9}" using dig[OF _ j] by auto
    ultimately obtain i where i: "i < 9" "cellAt R i j = Some e"
      using all_digits[OF _ _ e] by blast
    with miss[OF j] have "i \<noteq> r" by auto
    with i show ?thesis by blast
  qed
  then have "\<forall>j\<in>{..<9}. \<exists>i. i < 9 \<and> i \<noteq> r \<and> cellAt R i j = Some e" by simp
  then obtain \<rho> where \<rho>: "\<forall>j\<in>{..<9}. \<rho> j < 9 \<and> \<rho> j \<noteq> r \<and> cellAt R (\<rho> j) j = Some e"
    by (rule bchoice[THEN exE])
  have "\<rho> ` {..<9} \<subseteq> {..<9} - {r}" using \<rho> by auto
  then have "card (\<rho> ` {..<9}) \<le> card ({..<9} - {r})" by (intro card_mono) simp_all
  also have "\<dots> = 8" using r by simp
  finally have "card (\<rho> ` {..<9}) < card {..<9::nat}" by simp
  then have "\<not> inj_on \<rho> {..<9}" by (rule pigeonhole)
  then obtain j j' where jj: "j < 9" "j' < 9" "j \<noteq> j'" "\<rho> j = \<rho> j'"
    unfolding inj_on_def by auto
  let ?i = "\<rho> j"
  have i: "?i < 9" "?i \<noteq> r" using \<rho> jj(1) by simp_all
  have "cellAt b ?i j = None" by (rule empty[OF i(1) jj(1) i(2)])
  then have "cellAt R ?i j \<noteq> cellAt R ?i j'"
    using jj(3) by (intro fills_distinct[OF f i(1) jj(1) i(1) jj(2)]) (simp_all add: sameRegion_def)
  moreover have "cellAt R ?i j = Some e" using \<rho> jj(1) by simp
  moreover have "cellAt R ?i j' = Some e" using \<rho> jj(2) unfolding jj(4) by simp
  ultimately show False by simp
qed

text \<open>The digit 5 twice in the first row, and nothing else.\<close>

definition twoFives :: sudoku where
  "twoFives = boardOfDigits
     [[5, 5, 0, 0, 0, 0, 0, 0, 0],
      [0, 0, 0, 0, 0, 0, 0, 0, 0],
      [0, 0, 0, 0, 0, 0, 0, 0, 0],
      [0, 0, 0, 0, 0, 0, 0, 0, 0],
      [0, 0, 0, 0, 0, 0, 0, 0, 0],
      [0, 0, 0, 0, 0, 0, 0, 0, 0],
      [0, 0, 0, 0, 0, 0, 0, 0, 0],
      [0, 0, 0, 0, 0, 0, 0, 0, 0],
      [0, 0, 0, 0, 0, 0, 0, 0, 0]]"

lemma all_cells_code:
  "(\<forall>i<9. \<forall>j<9. P i j) \<longleftrightarrow> (\<forall>i\<in>set [0..<9]. \<forall>j\<in>set [0..<9]. P i (j::nat))"
  unfolding set_upt_9 by auto

text \<open>
  Claim C6. For a board with the same digit at two different columns of one row and every
  other cell empty, \<^verbatim>\<open>solve\<close> returns \<^verbatim>\<open>solved: false\<close>. (The search never revisits the
  given cells, and no filling of the empty cells survives: the row of the two given digits
  misses some digit \<open>e\<close>, every column must hold \<open>e\<close>, so two of the nine columns hold it in
  the same one of the eight other rows.)
\<close>

theorem solve_two_equal_in_row_unsolved:
  assumes "1 \<le> d" and "d \<le> 9" and "r < 9" and "c1 < 9" and "c2 < 9" and "c1 \<noteq> c2"
    and "\<forall>i<9. \<forall>j<9. cellAt b i j = (if i = r \<and> (j = c1 \<or> j = c2) then Some d else None)"
  shows "\<not> solved (solve \<lparr>solved = False, board = b\<rparr>)"
proof
  assume "solved (solve \<lparr>solved = False, board = b\<rparr>)"
  then have "fills (board (solve \<lparr>solved = False, board = b\<rparr>)) b"
    using solve_sound[of "\<lparr>solved = False, board = b\<rparr>"] by simp
  moreover have "\<not> fills (board (solve \<lparr>solved = False, board = b\<rparr>)) b"
    using assms(7) by (intro two_in_row_unfillable[OF assms(1-6)]) blast
  ultimately show False by simp
qed

theorem solve_two_equal_in_row_unsolved_witness:
  "cellAt twoFives 0 0 = Some 5 \<and> cellAt twoFives 0 1 = Some 5 \<and> emptyCount twoFives = 79 \<and>
   \<not> solved (solve \<lparr>solved = False, board = twoFives\<rparr>)"
proof -
  have b: "\<forall>i<9. \<forall>j<9. cellAt twoFives i j =
             (if i = 0 \<and> (j = 0 \<or> j = 1) then Some 5 else None)"
    unfolding all_cells_code by code_simp
  have e: "emptyCount twoFives = 79" by code_simp
  have "(1::nat) \<le> 5" "(5::nat) \<le> 9" "(0::nat) < 9" "(0::nat) < 9" "(1::nat) < 9" "(0::nat) \<noteq> 1"
    by simp_all
  from solve_two_equal_in_row_unsolved[OF this b] b e show ?thesis by simp
qed

section \<open>Printing and parsing again\<close>

text \<open>What \<^verbatim>\<open>prettyPrint\<close> appends to the row for one cell.\<close>

definition token :: "cell \<Rightarrow> string" where
  "token c = (case c of None \<Rightarrow> ''* '' | Some n \<Rightarrow> toString n @ '' '')"

lemma foldl_append_tokens:
  "foldl (\<lambda>row j. row @ t j) acc js = acc @ concat (map t js)"
  by (induction js arbitrary: acc) simp_all

lemma prettyPrint_tokens:
  "prettyPrint b = map (\<lambda>i. concat (map (\<lambda>j. token (cellAt b i j)) [0..<9])) [0..<9]"
proof -
  have "(\<lambda>row j. case nth9 (nth9 b i) j of None \<Rightarrow> row @ ''* '' | Some n \<Rightarrow> row @ toString n @ '' '')
        = (\<lambda>row j. row @ token (cellAt b i j))" for i
    by (intro ext) (simp add: token_def cellAt_def split: option.split)
  then show ?thesis
    unfolding prettyPrint_def by (simp add: foldl_append_tokens del: upt_Suc)
qed

lemma toString_no_newline: "CHR 0x0A \<notin> set (toString n)"
proof (induction n rule: toString.induct)
  case (1 n)
  have d: "char_of (48 + k) \<noteq> CHR 0x0A" if "k < 10" for k :: nat
  proof
    assume "char_of (48 + k) = CHR 0x0A"
    then have "(of_char (char_of (48 + k)) :: nat) = of_char (CHR 0x0A)" by simp
    then show False using that by simp
  qed
  show ?case
  proof (cases "n < 10")
    case True
    then show ?thesis using d[OF True] by (subst toString.simps) auto
  next
    case False
    have "n mod 10 < 10" by simp
    from d[OF this] "1.IH"[OF False] False show ?thesis
      by (subst toString.simps) auto
  qed
qed

lemma toString_nonempty: "1 \<le> length (toString n)"
  by (subst toString.simps) simp

lemma token_no_newline: "CHR 0x0A \<notin> set (token c)"
  by (cases c) (simp_all add: token_def toString_no_newline)

lemma token_length: "2 \<le> length (token c)"
  using toString_nonempty by (cases c) (simp_all add: token_def)

lemma length_concat_ge:
  "\<forall>x\<in>set xs. k \<le> length (f x) \<Longrightarrow> k * length xs \<le> length (concat (map f xs))"
  by (induction xs) auto

lemma splitAt_line:
  "c \<notin> set line \<Longrightarrow> splitAt [c] (line @ c # rest) = line # splitAt [c] rest"
  by (induction line) auto

lemma splitAt_lines:
  "\<forall>line\<in>set lines. c \<notin> set line \<Longrightarrow>
   splitAt [c] (concat (map (\<lambda>line. line @ [c]) lines)) = lines @ [[]]"
  by (induction lines) (simp_all add: splitAt_line)

lemma prettyPrint_lines:
  shows "length (prettyPrint b) = 9"
    and "\<forall>line\<in>set (prettyPrint b). CHR 0x0A \<notin> set line"
    and "\<forall>line\<in>set (prettyPrint b). 18 \<le> length line"
proof -
  show "length (prettyPrint b) = 9" unfolding prettyPrint_tokens by simp
  show "\<forall>line\<in>set (prettyPrint b). CHR 0x0A \<notin> set line"
    unfolding prettyPrint_tokens by (auto simp: token_no_newline simp del: upt_Suc)
  have "18 \<le> length (concat (map (\<lambda>j. token (cellAt b i j)) [0..<9]))" for i
    using length_concat_ge[of "[0..<9]" 2 "\<lambda>j. token (cellAt b i j)"] token_length by simp
  then show "\<forall>line\<in>set (prettyPrint b). 18 \<le> length line"
    unfolding prettyPrint_tokens by (auto simp del: upt_Suc)
qed

lemma parseGame_long_first_line:
  assumes "length lines = 9" and "\<forall>line\<in>set lines. CHR 0x0A \<notin> set line"
    and "length (hd lines) \<noteq> 9"
  shows "parseGame (consoleText lines) = Inl LineNotNineChars"
proof -
  from assms(1) obtain line rest where l: "lines = line # rest" by (cases lines) auto
  have "split (consoleText lines) EOL = lines @ [[]]"
    unfolding split_def consoleText_def EOL_def using splitAt_lines[OF assms(2)] by simp
  then have "butlast (split (consoleText lines) EOL) = lines" by simp
  moreover have "mapE parseLine lines = Inl LineNotNineChars"
    using assms(3) unfolding l by (simp add: parseLine_def)
  ultimately show ?thesis
    unfolding parseGame_def using assms(1) by simp
qed

text \<open>
  Claim C4, as stated (rendering a board with \<^verbatim>\<open>prettyPrint\<close> and parsing the rendered text
  again yields the board), fails: the rendered text of the example puzzle is not parsed
  back into the puzzle.
\<close>

theorem prettyPrint_parseGame_counterexample:
  "parseGame (consoleText (prettyPrint puzzle)) \<noteq> Inr puzzle"
  by code_simp

text \<open>
  Claim C4, amended. For every board, parsing the text that \<^verbatim>\<open>prettyPrint\<close> writes yields no
  board: \<^verbatim>\<open>parseGame\<close> raises the error of a line without exactly 9 characters, since a
  rendered line holds for each of the nine cells its digits or \<^verbatim>\<open>*\<close> and then a space.
\<close>

theorem prettyPrint_parseGame_error:
  "parseGame (consoleText (prettyPrint b)) = Inl LineNotNineChars"
proof (rule parseGame_long_first_line)
  show "length (prettyPrint b) = 9" by (rule prettyPrint_lines(1))
  show "\<forall>line\<in>set (prettyPrint b). CHR 0x0A \<notin> set line" by (rule prettyPrint_lines(2))
  have "prettyPrint b \<noteq> []" using prettyPrint_lines(1)[of b] by auto
  then have "hd (prettyPrint b) \<in> set (prettyPrint b)" by simp
  with prettyPrint_lines(3)[of b] have "18 \<le> length (hd (prettyPrint b))" by blast
  then show "length (hd (prettyPrint b)) \<noteq> 9" by simp
qed

section \<open>The solver on a store of row arrays\<close>

text \<open>
  To state that \<^verbatim>\<open>solve\<close> does not mutate the board it is given, the rows of the boards
  become objects in a store: a row array is allocated at the next free address (the length
  of the store), \<^verbatim>\<open>structuredClone\<close> allocates the rows of the copy, and the assignment
  \<^verbatim>\<open>newBoard[next[0]][next[1]] = option\<close> overwrites a row of the store in place. The outer
  array of a board is only ever read, so a reference to a board is the tuple of the
  addresses of its nine rows; a game object, which is never assigned to either, is its flag
  and the reference to its board.
\<close>

type_synonym addr = nat
type_synonym store = "row list"

record gameObj =
  solvedFlag :: bool
  boardRows :: "addr tuple9"

text \<open>The board that a reference denotes in a store.\<close>

definition deref :: "store \<Rightarrow> addr tuple9 \<Rightarrow> sudoku" where
  "deref h rows = map9 (\<lambda>a. h ! a) rows"

definition gameIn :: "store \<Rightarrow> gameObj \<Rightarrow> game" where
  "gameIn h g = \<lparr>solved = solvedFlag g, board = deref h (boardRows g)\<rparr>"

text \<open>
  \<^verbatim>\<open>structuredClone\<close> copies every row object once: a row that occurs again in the board is
  copied to the same new row. \<open>copied\<close> pairs the rows already copied with their copies.
\<close>

fun cloneRows :: "store \<Rightarrow> (addr \<times> addr) list \<Rightarrow> addr list \<Rightarrow> store \<times> addr list" where
  "cloneRows h copied [] = (h, [])"
| "cloneRows h copied (a # as) =
     (case map_of copied a of
        Some a' \<Rightarrow> (let (h', out) = cloneRows h copied as in (h', a' # out))
      | None \<Rightarrow>
          (let a' = length h;
               (h', out) = cloneRows (h @ [h ! a]) ((a, a') # copied) as
           in (h', a' # out)))"

definition structuredClone :: "store \<Rightarrow> addr tuple9 \<Rightarrow> store \<times> addr tuple9" where
  "structuredClone h rows = (let (h', out) = cloneRows h [] (elems rows) in (h', tuple9_of out))"

text \<open>\<^verbatim>\<open>newBoard[next[0]][next[1]] = option\<close>\<close>

definition assignCell :: "store \<Rightarrow> addr tuple9 \<Rightarrow> coord \<Rightarrow> nat \<Rightarrow> store" where
  "assignCell h newBoard next option =
     (let a = nth9 newBoard (fst next) in h[a := upd9 (h ! a) (snd next) (Some option)])"

text \<open>
  The loop of \<^verbatim>\<open>solve\<close>, threading the store through the attempts; \<open>None\<close> when an attempt
  runs out of fuel.
\<close>

fun forOptionsIn ::
  "(store \<Rightarrow> nat \<Rightarrow> (store \<times> gameObj) option) \<Rightarrow> nat list \<Rightarrow> store \<Rightarrow> gameObj
     \<Rightarrow> (store \<times> gameObj) option" where
  "forOptionsIn attempt [] h game0 = Some (h, game0)"
| "forOptionsIn attempt (option # options) h game0 =
     (case attempt h option of
        None \<Rightarrow> None
      | Some (h', finalGame) \<Rightarrow>
          if solvedFlag finalGame then Some (h', finalGame)
          else forOptionsIn attempt options h' game0)"

text \<open>
  \<^verbatim>\<open>solve\<close> on the store, with a bound on the depth of the recursion (the fuel): the store
  after the call and the game object it returns.
\<close>

fun solveIn :: "nat \<Rightarrow> store \<Rightarrow> gameObj \<Rightarrow> (store \<times> gameObj) option" where
  "solveIn 0 h game = None"
| "solveIn (Suc fuel) h game =
     (case getNextEmptyCoord (deref h (boardRows game)) of
        None \<Rightarrow> Some (h, \<lparr>solvedFlag = True, boardRows = boardRows game\<rparr>)
      | Some next \<Rightarrow>
          (let options = getOptionsForCoord (deref h (boardRows game)) next in
           if length options = 0 then Some (h, game)
           else forOptionsIn
                  (\<lambda>h option.
                     let (h1, newBoard) = structuredClone h (boardRows game);
                         h2 = assignCell h1 newBoard next option;
                         newGame = \<lparr>solvedFlag = False, boardRows = newBoard\<rparr>
                     in solveIn fuel h2 newGame)
                  options h game))"

declare solveIn.simps(2) [simp del]

subsection \<open>The solver only allocates, and writes only what it allocated\<close>

lemma cloneRows_appends:
  "cloneRows h copied as = (h', out) \<Longrightarrow> \<exists>ext. h' = h @ ext"
proof (induction h copied as arbitrary: h' out rule: cloneRows.induct)
  case (1 h copied)
  then show ?case by simp
next
  case (2 h copied a as)
  show ?case
  proof (cases "map_of copied a")
    case None
    obtain h1 out1 where r: "cloneRows (h @ [h ! a]) ((a, length h) # copied) as = (h1, out1)"
      by (cases "cloneRows (h @ [h ! a]) ((a, length h) # copied) as")
    from "2.IH"(1)[OF None refl r] obtain ext where "h1 = (h @ [h ! a]) @ ext" by blast
    moreover from "2.prems" None r have "h' = h1" by simp
    ultimately show ?thesis by simp
  next
    case (Some a')
    obtain h1 out1 where r: "cloneRows h copied as = (h1, out1)"
      by (cases "cloneRows h copied as")
    from "2.IH"(2)[OF Some r] obtain ext where "h1 = h @ ext" by blast
    moreover from "2.prems" Some r have "h' = h1" by simp
    ultimately show ?thesis by simp
  qed
qed

lemma cloneRows_fresh:
  "cloneRows h copied as = (h', out) \<Longrightarrow>
   length out = length as \<and>
   (\<forall>a'\<in>set out. a' \<in> snd ` set copied \<or> (length h \<le> a' \<and> a' < length h'))"
proof (induction h copied as arbitrary: h' out rule: cloneRows.induct)
  case (1 h copied)
  then show ?case by simp
next
  case (2 h copied a as)
  show ?case
  proof (cases "map_of copied a")
    case None
    obtain h1 out1 where r: "cloneRows (h @ [h ! a]) ((a, length h) # copied) as = (h1, out1)"
      by (cases "cloneRows (h @ [h ! a]) ((a, length h) # copied) as")
    from "2.prems" None r have e: "h' = h1" "out = length h # out1" by simp_all
    from cloneRows_appends[OF r] have len: "length h < length h1" by auto
    from "2.IH"(1)[OF None refl r] have "length out1 = length as"
      and "\<forall>a'\<in>set out1. a' \<in> snd ` set ((a, length h) # copied) \<or>
              (length (h @ [h ! a]) \<le> a' \<and> a' < length h1)" by blast+
    then show ?thesis unfolding e using len by auto
  next
    case (Some a')
    obtain h1 out1 where r: "cloneRows h copied as = (h1, out1)"
      by (cases "cloneRows h copied as")
    from "2.prems" Some r have e: "h' = h1" "out = a' # out1" by simp_all
    from Some have "a' \<in> snd ` set copied" by (force dest: map_of_SomeD)
    with "2.IH"(2)[OF Some r] show ?thesis unfolding e by auto
  qed
qed

lemma nth9_tuple9_of: "i < 9 \<Longrightarrow> nth9 (tuple9_of xs) i = xs ! i"
  by (drule less9_cases) (elim disjE; simp add: tuple9_of_def nth9_Tuple9)

lemma structuredClone_frame:
  assumes "structuredClone h rows = (h1, newBoard)"
  shows "\<exists>ext. h1 = h @ ext"
    and "\<And>i. i < 9 \<Longrightarrow> length h \<le> nth9 newBoard i \<and> nth9 newBoard i < length h1"
proof -
  obtain out where c: "cloneRows h [] (elems rows) = (h1, out)" and nb: "newBoard = tuple9_of out"
    using assms unfolding structuredClone_def by (cases "cloneRows h [] (elems rows)") auto
  show "\<exists>ext. h1 = h @ ext" by (rule cloneRows_appends[OF c])
  fix i :: nat assume i: "i < 9"
  from cloneRows_fresh[OF c] have l: "length out = 9"
    and f: "\<forall>a'\<in>set out. length h \<le> a' \<and> a' < length h1" by (simp_all add: length_elems)
  from i l have "out ! i \<in> set out" by simp
  with f show "length h \<le> nth9 newBoard i \<and> nth9 newBoard i < length h1"
    unfolding nb nth9_tuple9_of[OF i] by blast
qed

lemma assignCell_frame:
  assumes "length h \<le> nth9 newBoard (fst next)"
  shows "\<exists>ext'. assignCell (h @ ext) newBoard next option = h @ ext'"
  using assms unfolding assignCell_def Let_def by (simp add: list_update_append)

lemma forOptionsIn_frame:
  assumes "\<And>h option h' r. attempt h option = Some (h', r) \<Longrightarrow> \<exists>ext. h' = h @ ext"
  shows "forOptionsIn attempt options h game0 = Some (h', r) \<Longrightarrow> \<exists>ext. h' = h @ ext"
proof (induction options arbitrary: h)
  case Nil
  then show ?case by simp
next
  case (Cons option options)
  from Cons.prems obtain h1 r1 where a: "attempt h option = Some (h1, r1)"
    by (cases "attempt h option") auto
  from assms[OF a] obtain ext1 where e1: "h1 = h @ ext1" by blast
  show ?case
  proof (cases "solvedFlag r1")
    case True
    with Cons.prems a have "h' = h1" by simp
    with e1 show ?thesis by blast
  next
    case False
    with Cons.prems a have "forOptionsIn attempt options h1 game0 = Some (h', r)" by simp
    from Cons.IH[OF this] obtain ext where "h' = h1 @ ext" by blast
    with e1 show ?thesis by simp
  qed
qed

lemma solveIn_frame:
  "solveIn fuel h game = Some (h', r) \<Longrightarrow> \<exists>ext. h' = h @ ext"
proof (induction fuel arbitrary: h game h' r)
  case 0
  then show ?case by simp
next
  case (Suc fuel)
  show ?case
  proof (cases "getNextEmptyCoord (deref h (boardRows game))")
    case None
    with Suc.prems have "h' = h" by (simp add: solveIn.simps(2))
    then show ?thesis by simp
  next
    case (Some nxt)
    obtain i j where ij: "nxt = (i, j)" by (cases nxt)
    from Some have "i < 9" unfolding ij by (rule getNextEmptyCoord_Some(1))
    let ?opts = "getOptionsForCoord (deref h (boardRows game)) nxt"
    let ?attempt = "\<lambda>h option.
                     let (h1, newBoard) = structuredClone h (boardRows game);
                         h2 = assignCell h1 newBoard nxt option;
                         newGame = \<lparr>solvedFlag = False, boardRows = newBoard\<rparr>
                     in solveIn fuel h2 newGame"
    have att: "\<exists>ext. h'' = h0 @ ext" if a: "?attempt h0 option = Some (h'', r'')" for h0 option h'' r''
    proof -
      obtain h1 nb where c: "structuredClone h0 (boardRows game) = (h1, nb)"
        by (cases "structuredClone h0 (boardRows game)")
      from structuredClone_frame(1)[OF c] obtain ext1 where e1: "h1 = h0 @ ext1" by blast
      from structuredClone_frame(2)[OF c \<open>i < 9\<close>] have "length h0 \<le> nth9 nb (fst nxt)"
        unfolding ij by simp
      from assignCell_frame[OF this, of ext1 option] obtain ext2
        where e2: "assignCell h1 nb nxt option = h0 @ ext2" unfolding e1 by blast
      from a c have "solveIn fuel (assignCell h1 nb nxt option)
                       \<lparr>solvedFlag = False, boardRows = nb\<rparr> = Some (h'', r'')"
        by (simp add: Let_def)
      from Suc.IH[OF this] obtain ext3 where "h'' = assignCell h1 nb nxt option @ ext3" by blast
      then show ?thesis unfolding e2 by simp
    qed
    show ?thesis
    proof (cases "length ?opts = 0")
      case True
      with Suc.prems Some have "h' = h" by (simp add: solveIn.simps(2))
      then show ?thesis by simp
    next
      case False
      with Suc.prems Some have "forOptionsIn ?attempt ?opts h game = Some (h', r)"
        by (simp add: solveIn.simps(2) Let_def)
      then show ?thesis by (rule forOptionsIn_frame[rotated]) (rule att)
    qed
  qed
qed

subsection \<open>The solver on the store computes what the solver on values computes\<close>

text \<open>
  A reference to a board whose nine rows are allocated, pairwise different row objects (as
  the rows of a board made by \<^verbatim>\<open>parseGame\<close> or by \<^verbatim>\<open>structuredClone\<close> are).
\<close>

definition rowsIn :: "store \<Rightarrow> addr tuple9 \<Rightarrow> bool" where
  "rowsIn h rows \<longleftrightarrow> (\<forall>a\<in>set (elems rows). a < length h) \<and> distinct (elems rows)"

lemma tuple9_ext:
  assumes "\<And>i. i < 9 \<Longrightarrow> nth9 s i = nth9 t i"
  shows "s = t"
proof -
  have "map (nth9 s) [0..<9] = map (nth9 t) [0..<9]"
    using assms by (intro map_cong refl) simp
  then have "elems s = elems t" unfolding elems_nth9 .
  then show ?thesis by (cases s, cases t) simp
qed

lemma nth9_in_elems: "i < 9 \<Longrightarrow> nth9 t i \<in> set (elems t)"
  unfolding elems_nth9 by (simp del: upt_Suc)

lemma nth9_deref: "i < 9 \<Longrightarrow> nth9 (deref h rows) i = h ! nth9 rows i"
  unfolding deref_def by (rule nth9_map9)

lemma rowsIn_nth9:
  assumes "rowsIn h rows"
  shows "i < 9 \<Longrightarrow> nth9 rows i < length h"
    and "i < 9 \<Longrightarrow> k < 9 \<Longrightarrow> nth9 rows i = nth9 rows k \<Longrightarrow> i = k"
proof -
  show "i < 9 \<Longrightarrow> nth9 rows i < length h"
    using assms nth9_in_elems[of i rows] unfolding rowsIn_def by blast
  assume ik: "i < 9" "k < 9" and e: "nth9 rows i = nth9 rows k"
  from assms have d: "distinct (elems rows)" unfolding rowsIn_def by blast
  from e have "elems rows ! i = elems rows ! k" unfolding nth9_def .
  then show "i = k"
    using nth_eq_iff_index_eq[OF d, of i k] ik by (simp add: length_elems)
qed

lemma deref_append:
  assumes "rowsIn h rows"
  shows "deref (h @ ext) rows = deref h rows"
proof (rule tuple9_ext)
  fix i :: nat assume i: "i < 9"
  show "nth9 (deref (h @ ext) rows) i = nth9 (deref h rows) i"
    unfolding nth9_deref[OF i] using rowsIn_nth9(1)[OF assms i] by (simp add: nth_append)
qed

lemma rowsIn_append: "rowsIn h rows \<Longrightarrow> rowsIn (h @ ext) rows"
  unfolding rowsIn_def by auto

lemma cloneRows_distinct:
  assumes "distinct as" and "\<forall>a\<in>set as. a < length h" and "\<forall>a\<in>set as. map_of copied a = None"
  shows "cloneRows h copied as = (h @ map (\<lambda>a. h ! a) as, [length h..<length h + length as])"
  using assms
proof (induction as arbitrary: h copied)
  case Nil
  show ?case by simp
next
  case (Cons a as)
  let ?h1 = "h @ [h ! a]"
  have n: "map_of copied a = None" using Cons.prems(3) by simp
  have step: "cloneRows h copied (a # as) =
        (case cloneRows ?h1 ((a, length h) # copied) as of (h', out) \<Rightarrow> (h', length h # out))"
    using n by (simp add: Let_def)
  have rec: "cloneRows ?h1 ((a, length h) # copied) as
        = (?h1 @ map (\<lambda>b. ?h1 ! b) as, [length ?h1..<length ?h1 + length as])"
    using Cons.prems by (intro Cons.IH) auto
  have m: "map (\<lambda>b. ?h1 ! b) as = map (\<lambda>b. h ! b) as"
    using Cons.prems(2) by (intro map_cong refl) (simp add: nth_append)
  have u: "[length h..<length h + length (a # as)]
                 = length h # [length ?h1..<length ?h1 + length as]"
  proof -
    have "length h < length h + length (a # as)" by simp
    from upt_conv_Cons[OF this] show ?thesis by simp
  qed
  show ?case unfolding step rec m u by simp
qed

lemma structuredClone_rowsIn:
  assumes r: "rowsIn h rows" and c: "structuredClone h rows = (h1, newBoard)"
  shows "deref h1 newBoard = deref h rows" and "rowsIn h1 newBoard"
proof -
  from r have "cloneRows h [] (elems rows) = (h @ map (\<lambda>a. h ! a) (elems rows), [length h..<length h + 9])"
    unfolding rowsIn_def using cloneRows_distinct[of "elems rows" h "[]"] by (simp add: length_elems)
  with c have h1: "h1 = h @ map (\<lambda>a. h ! a) (elems rows)"
    and nb: "newBoard = tuple9_of [length h..<length h + 9]"
    unfolding structuredClone_def by simp_all
  have nth: "nth9 newBoard i = length h + i" if "i < 9" for i
    unfolding nb nth9_tuple9_of[OF that] using that by simp
  show "deref h1 newBoard = deref h rows"
  proof (rule tuple9_ext)
    fix i :: nat assume i: "i < 9"
    have "h1 ! (length h + i) = map (\<lambda>a. h ! a) (elems rows) ! i"
      unfolding h1 by (simp add: nth_append)
    also have "\<dots> = h ! (elems rows ! i)" using i by (simp add: length_elems)
    finally have "h1 ! (length h + i) = h ! (elems rows ! i)" .
    moreover have "nth9 (deref h1 newBoard) i = h1 ! (length h + i)"
      by (simp add: nth9_deref[OF i] nth[OF i])
    moreover have "nth9 (deref h rows) i = h ! (elems rows ! i)"
      unfolding nth9_deref[OF i] by (simp add: nth9_def)
    ultimately show "nth9 (deref h1 newBoard) i = nth9 (deref h rows) i" by simp
  qed
  have e: "elems newBoard = [length h..<length h + 9]"
  proof (rule nth_equalityI)
    show "length (elems newBoard) = length [length h..<length h + 9]" by (simp add: length_elems)
    fix i assume "i < length (elems newBoard)"
    then have i: "i < 9" by (simp add: length_elems)
    from nth[OF i] show "elems newBoard ! i = [length h..<length h + 9] ! i"
      unfolding nth9_def using i by simp
  qed
  show "rowsIn h1 newBoard"
    unfolding rowsIn_def e h1 by (simp add: length_elems)
qed

lemma assignCell_rowsIn:
  assumes r: "rowsIn h newBoard" and ij: "i < 9" "j < 9"
  shows "deref (assignCell h newBoard (i, j) option) newBoard = setCell (deref h newBoard) (i, j) option"
    and "rowsIn (assignCell h newBoard (i, j) option) newBoard"
proof -
  let ?a = "nth9 newBoard i"
  let ?h2 = "h[?a := upd9 (h ! ?a) j (Some option)]"
  have h2: "assignCell h newBoard (i, j) option = ?h2" unfolding assignCell_def Let_def by simp
  show "rowsIn (assignCell h newBoard (i, j) option) newBoard"
    using r unfolding h2 rowsIn_def by simp
  show "deref (assignCell h newBoard (i, j) option) newBoard = setCell (deref h newBoard) (i, j) option"
    unfolding h2
  proof (rule tuple9_ext)
    fix k :: nat assume k: "k < 9"
    show "nth9 (deref ?h2 newBoard) k = nth9 (setCell (deref h newBoard) (i, j) option) k"
    proof (cases "i = k")
      case True
      have "nth9 (deref ?h2 newBoard) i = upd9 (h ! ?a) j (Some option)"
        unfolding nth9_deref[OF ij(1)] using rowsIn_nth9(1)[OF r ij(1)] by simp
      moreover have "nth9 (setCell (deref h newBoard) (i, j) option) i = upd9 (h ! ?a) j (Some option)"
        unfolding setCell_def fst_conv snd_conv nth9_upd9_same[OF ij(1)] nth9_deref[OF ij(1)] ..
      ultimately show ?thesis unfolding True[symmetric] by simp
    next
      case False
      then have "nth9 newBoard k \<noteq> ?a" using rowsIn_nth9(2)[OF r k ij(1)] by auto
      then have "nth9 (deref ?h2 newBoard) k = h ! nth9 newBoard k"
        unfolding nth9_deref[OF k] by simp
      moreover have "nth9 (setCell (deref h newBoard) (i, j) option) k = h ! nth9 newBoard k"
        unfolding setCell_def fst_conv snd_conv nth9_upd9_other[OF False k] nth9_deref[OF k] ..
      ultimately show ?thesis by simp
    qed
  qed
qed

lemma attempt_frame:
  assumes c: "structuredClone h rows = (h1, newBoard)" and i: "i < 9"
  shows "\<exists>ext. assignCell h1 newBoard (i, j) option = h @ ext"
proof -
  from structuredClone_frame(1)[OF c] obtain ext1 where e1: "h1 = h @ ext1" by blast
  from structuredClone_frame(2)[OF c i] have "length h \<le> nth9 newBoard (fst (i, j))" by simp
  from assignCell_frame[OF this, of ext1 option] show ?thesis unfolding e1 .
qed

lemma forOptionsIn_refines:
  assumes att: "\<And>h option. option \<in> set options \<Longrightarrow> rowsIn h rows \<Longrightarrow> deref h rows = b \<Longrightarrow>
            \<exists>h' r. attemptIn h option = Some (h', r) \<and> gameIn h' r = attempt option \<and>
                   rowsIn h' (boardRows r) \<and> rowsIn h' rows \<and> deref h' rows = b"
    and q: "rowsIn h rows" "deref h rows = b" and g: "boardRows game0 = rows"
  shows "\<exists>h' r. forOptionsIn attemptIn options h game0 = Some (h', r) \<and>
           gameIn h' r = forOptions attempt options \<lparr>solved = solvedFlag game0, board = b\<rparr> \<and>
           rowsIn h' (boardRows r) \<and> (\<not> solvedFlag r \<longrightarrow> r = game0)"
  using att q
proof (induction options arbitrary: h)
  case Nil
  then show ?case using g by (simp add: gameIn_def)
next
  case (Cons option options)
  from Cons.prems(1)[OF _ Cons.prems(2,3), of option]
  obtain h1 r1 where a: "attemptIn h option = Some (h1, r1)" "gameIn h1 r1 = attempt option"
    "rowsIn h1 (boardRows r1)" "rowsIn h1 rows" "deref h1 rows = b" by auto
  have s: "solved (attempt option) = solvedFlag r1"
    unfolding a(2)[symmetric] gameIn_def by simp
  show ?case
  proof (cases "solvedFlag r1")
    case True
    then show ?thesis using a s by (simp add: Let_def)
  next
    case False
    have "\<exists>h' r. forOptionsIn attemptIn options h1 game0 = Some (h', r) \<and>
           gameIn h' r = forOptions attempt options \<lparr>solved = solvedFlag game0, board = b\<rparr> \<and>
           rowsIn h' (boardRows r) \<and> (\<not> solvedFlag r \<longrightarrow> r = game0)"
      using Cons.prems(1) a(4,5) by (intro Cons.IH) auto
    then show ?thesis using a(1) s False by (simp add: Let_def)
  qed
qed

lemma solveIn_refines:
  assumes "rowsIn h (boardRows g)" and "emptyCount (deref h (boardRows g)) < fuel"
  shows "\<exists>h' r. solveIn fuel h g = Some (h', r) \<and> gameIn h' r = solve (gameIn h g) \<and>
           rowsIn h' (boardRows r) \<and> (\<not> solvedFlag r \<longrightarrow> r = g)"
  using assms
proof (induction fuel arbitrary: h g)
  case 0
  then show ?case by simp
next
  case (Suc fuel)
  let ?rows = "boardRows g"
  let ?b = "deref h ?rows"
  have bg: "board (gameIn h g) = ?b" by (simp add: gameIn_def)
  show ?case
  proof (cases "getNextEmptyCoord ?b")
    case None
    then have "solve (gameIn h g) = \<lparr>solved = True, board = ?b\<rparr>"
      using solve_None[of "gameIn h g"] unfolding bg by simp
    then show ?thesis
      using None Suc.prems(1) by (simp add: solveIn.simps(2) gameIn_def)
  next
    case (Some nxt)
    obtain i j where ij: "nxt = (i, j)" by (cases nxt)
    from Some have nx: "getNextEmptyCoord ?b = Some (i, j)" unfolding ij .
    have r: "i < 9" "j < 9" by (rule getNextEmptyCoord_Some[OF nx])+
    let ?opts = "getOptionsForCoord ?b nxt"
    let ?attemptIn = "\<lambda>h option.
                     let (h1, newBoard) = structuredClone h ?rows;
                         h2 = assignCell h1 newBoard nxt option;
                         newGame = \<lparr>solvedFlag = False, boardRows = newBoard\<rparr>
                     in solveIn fuel h2 newGame"
    let ?attempt = "\<lambda>option. solve \<lparr>solved = False, board = setCell ?b nxt option\<rparr>"
    have sv: "solve (gameIn h g) = forOptions ?attempt ?opts (gameIn h g)"
      using solve_Some[of "gameIn h g" nxt] Some unfolding bg by simp
    have att: "\<exists>h' r. ?attemptIn h0 option = Some (h', r) \<and> gameIn h' r = ?attempt option \<and>
                   rowsIn h' (boardRows r) \<and> rowsIn h' ?rows \<and> deref h' ?rows = ?b"
      if q: "rowsIn h0 ?rows" "deref h0 ?rows = ?b" for h0 option
    proof -
      obtain h1 nb where c: "structuredClone h0 ?rows = (h1, nb)"
        by (cases "structuredClone h0 ?rows")
      let ?h2 = "assignCell h1 nb nxt option"
      let ?new = "\<lparr>solvedFlag = False, boardRows = nb\<rparr>"
      have d1: "deref h1 nb = ?b" and r1: "rowsIn h1 nb"
        using structuredClone_rowsIn[OF q(1) c] q(2) by simp_all
      have d2: "deref ?h2 nb = setCell ?b nxt option" and r2: "rowsIn ?h2 nb"
        using assignCell_rowsIn[OF r1 r, of option] unfolding ij d1 by simp_all
      have "Suc (emptyCount (setCell ?b nxt option)) = emptyCount ?b"
        by (rule emptyCount_next[OF Some])
      with Suc.prems(2) have "emptyCount (deref ?h2 (boardRows ?new)) < fuel"
        by (simp add: d2)
      with r2 have "\<exists>h' r. solveIn fuel ?h2 ?new = Some (h', r) \<and> gameIn h' r = solve (gameIn ?h2 ?new) \<and>
           rowsIn h' (boardRows r) \<and> (\<not> solvedFlag r \<longrightarrow> r = ?new)"
        by (intro Suc.IH) simp_all
      then obtain h3 r3 where s3: "solveIn fuel ?h2 ?new = Some (h3, r3)"
        "gameIn h3 r3 = solve (gameIn ?h2 ?new)" "rowsIn h3 (boardRows r3)" by blast
      from attempt_frame[OF c r(1), of j option] obtain ext2 where "?h2 = h0 @ ext2"
        unfolding ij by blast
      moreover from solveIn_frame[OF s3(1)] obtain ext3 where "h3 = ?h2 @ ext3" by blast
      ultimately have e: "h3 = h0 @ (ext2 @ ext3)" by simp
      have "rowsIn h3 ?rows" unfolding e by (rule rowsIn_append[OF q(1)])
      moreover have "deref h3 ?rows = ?b" unfolding e deref_append[OF q(1)] by (rule q(2))
      moreover have "gameIn h3 r3 = ?attempt option"
        unfolding s3(2) by (simp add: gameIn_def d2)
      moreover have "?attemptIn h0 option = Some (h3, r3)"
        using c s3(1) by (simp add: Let_def)
      ultimately show ?thesis using s3(3) by blast
    qed
    show ?thesis
    proof (cases "length ?opts = 0")
      case True
      then have "solve (gameIn h g) = gameIn h g" unfolding sv by simp
      then show ?thesis
        using Some True Suc.prems(1) by (simp add: solveIn.simps(2))
    next
      case False
      have "\<exists>h' r. forOptionsIn ?attemptIn ?opts h g = Some (h', r) \<and>
           gameIn h' r = forOptions ?attempt ?opts \<lparr>solved = solvedFlag g, board = ?b\<rparr> \<and>
           rowsIn h' (boardRows r) \<and> (\<not> solvedFlag r \<longrightarrow> r = g)"
        using Suc.prems(1) by (intro forOptionsIn_refines) (rule att, simp_all)
      moreover have "solveIn (Suc fuel) h g = forOptionsIn ?attemptIn ?opts h g"
        using Some False by (simp add: solveIn.simps(2) Let_def)
      moreover have "\<lparr>solved = solvedFlag g, board = ?b\<rparr> = gameIn h g"
        by (simp add: gameIn_def)
      ultimately show ?thesis unfolding sv by simp
    qed
  qed
qed

subsection \<open>The frame of the solver\<close>

text \<open>
  A board whose first empty cell has no candidate: its row holds 1 to 8 and its column 9.
\<close>

definition deadEnd :: sudoku where
  "deadEnd = boardOfDigits
     [[0, 1, 2, 3, 4, 5, 6, 7, 8],
      [9, 0, 0, 0, 0, 0, 0, 0, 0],
      [0, 0, 0, 0, 0, 0, 0, 0, 0],
      [0, 0, 0, 0, 0, 0, 0, 0, 0],
      [0, 0, 0, 0, 0, 0, 0, 0, 0],
      [0, 0, 0, 0, 0, 0, 0, 0, 0],
      [0, 0, 0, 0, 0, 0, 0, 0, 0],
      [0, 0, 0, 0, 0, 0, 0, 0, 0],
      [0, 0, 0, 0, 0, 0, 0, 0, 0]]"

text \<open>The rows of \<open>deadEnd\<close> as the first nine objects of a store, and a game on them.\<close>

definition deadEndStore :: store where
  "deadEndStore = elems deadEnd"

definition deadEndGame :: gameObj where
  "deadEndGame = \<lparr>solvedFlag = False, boardRows = tuple9_of [0..<9]\<rparr>"

text \<open>
  Claim C8. \<^verbatim>\<open>solve\<close> never mutates the board it is given: run on a store (with fuel for at
  least 82 nested calls, which it never needs more than), it returns, every row object that
  existed before the call is unchanged after it, so the given board still denotes the same
  grid, and the returned game is the one the solver on values computes. Whenever it fails,
  because the candidates of the next empty cell are none or because the recursive attempt of
  every candidate fails, it returns exactly the input state, with \<^verbatim>\<open>solved: false\<close> as in the
  input state of every call the program makes; and whenever it returns an unsolved game,
  that game is the input game object itself.
\<close>

theorem solve_keeps_board_and_fails_with_input:
  assumes "rowsIn h (boardRows g)" and "81 < fuel"
  shows "(\<exists>h' r. solveIn fuel h g = Some (h', r) \<and>
            (\<forall>a<length h. h' ! a = h ! a) \<and>
            deref h' (boardRows g) = deref h (boardRows g) \<and>
            gameIn h' r = solve (gameIn h g) \<and>
            (\<not> solvedFlag r \<longrightarrow> r = g)) \<and>
         (\<not> solved p \<and> getNextEmptyCoord (board p) = Some next \<and>
          (\<forall>option\<in>set (getOptionsForCoord (board p) next).
             \<not> solved (solve \<lparr>solved = False, board = setCell (board p) next option\<rparr>))
          \<longrightarrow> solve p = p \<and> \<not> solved (solve p)) \<and>
         (\<not> solved (solve p) \<longrightarrow> solve p = p)"
proof (intro conjI impI)
  have "emptyCount (deref h (boardRows g)) < fuel"
    using emptyCount_le[of "deref h (boardRows g)"] assms(2) by simp
  from solveIn_refines[OF assms(1) this] obtain h' r where
    s: "solveIn fuel h g = Some (h', r)" "gameIn h' r = solve (gameIn h g)"
      "\<not> solvedFlag r \<longrightarrow> r = g" by blast
  from solveIn_frame[OF s(1)] obtain ext where e: "h' = h @ ext" by blast
  have "\<forall>a<length h. h' ! a = h ! a" unfolding e by (simp add: nth_append)
  moreover have "deref h' (boardRows g) = deref h (boardRows g)"
    unfolding e by (rule deref_append[OF assms(1)])
  ultimately show "\<exists>h' r. solveIn fuel h g = Some (h', r) \<and>
            (\<forall>a<length h. h' ! a = h ! a) \<and>
            deref h' (boardRows g) = deref h (boardRows g) \<and>
            gameIn h' r = solve (gameIn h g) \<and>
            (\<not> solvedFlag r \<longrightarrow> r = g)"
    using s by blast
next
  assume a: "\<not> solved p \<and> getNextEmptyCoord (board p) = Some next \<and>
          (\<forall>option\<in>set (getOptionsForCoord (board p) next).
             \<not> solved (solve \<lparr>solved = False, board = setCell (board p) next option\<rparr>))"
  then have "solve p = p"
    using solve_Some[of p "next"] forOptions_unsolved[of "getOptionsForCoord (board p) next"
        "\<lambda>option. solve \<lparr>solved = False, board = setCell (board p) next option\<rparr>" p]
    by simp
  then show "solve p = p" "\<not> solved (solve p)" using a by simp_all
next
  assume "\<not> solved (solve p)"
  then show "solve p = p" by (rule solve_unsolved_is_input)
qed

theorem solve_keeps_board_and_fails_with_input_witness:
  "rowsIn deadEndStore (boardRows deadEndGame) \<and>
   gameIn deadEndStore deadEndGame = \<lparr>solved = False, board = deadEnd\<rparr> \<and>
   getNextEmptyCoord deadEnd = Some (0, 0) \<and> getOptionsForCoord deadEnd (0, 0) = [] \<and>
   solveIn 82 deadEndStore deadEndGame = Some (deadEndStore, deadEndGame) \<and>
   solve \<lparr>solved = False, board = deadEnd\<rparr> = \<lparr>solved = False, board = deadEnd\<rparr>"
proof -
  have r: "rowsIn deadEndStore (boardRows deadEndGame)" by code_simp
  have g: "gameIn deadEndStore deadEndGame = \<lparr>solved = False, board = deadEnd\<rparr>" by code_simp
  have n: "getNextEmptyCoord deadEnd = Some (0, 0)" by code_simp
  have o: "getOptionsForCoord deadEnd (0, 0) = []" by code_simp
  have s: "solveIn 82 deadEndStore deadEndGame = Some (deadEndStore, deadEndGame)" by code_simp
  have f: "(81::nat) < 82" by simp
  from solve_keeps_board_and_fails_with_input[OF r f, of "\<lparr>solved = False, board = deadEnd\<rparr>" "(0, 0)"]
  have "solve \<lparr>solved = False, board = deadEnd\<rparr> = \<lparr>solved = False, board = deadEnd\<rparr>"
    using n o by simp
  with r g n o s show ?thesis by simp
qed

end
